theory Spec2Isabelle
  imports Complex_Main "HOL-Library.Multiset"
begin

section \<open>The filter-and-aggregate pipeline of peregrine\<close>

text \<open>
  The repository holds two variants of one command-line pipeline. The file variant
  (\<^verbatim>\<open>src/unnamed/part_001\<close>) reads nested entities from a JSON file and runs
  \<^verbatim>\<open>parsePropertyFilters\<close>, \<^verbatim>\<open>filterData\<close>, \<^verbatim>\<open>aggregateData\<close> and
  \<^verbatim>\<open>formatAggregation\<close>. The relational variant (\<^verbatim>\<open>src/index.js\<close>) pushes the
  filters into SQL and aggregates flat rows; its \<^verbatim>\<open>aggregateData\<close> and
  \<^verbatim>\<open>formatAggregation\<close> differ from the file variant's and carry the suffix
  \<open>_db\<close> here. \<^verbatim>\<open>parseValue\<close> and \<^verbatim>\<open>parsePropertyFilters\<close> are the same text in
  both files.

  Modelling decisions, each forced by JavaScript's dynamic values:
  \<^item> A JavaScript string is an Isabelle \<open>string\<close>, read as its sequence of UTF-8 bytes
    (every separator the code looks for is ASCII).
  \<^item> A stored property value is a \<open>scalar\<close>: null, a boolean, an integer or a string,
    the closed set of the data model (types STRING, INTEGER, BOOLEAN). A JavaScript
    number is a double, which holds every integer below \<open>2^53\<close> in absolute value
    exactly (\<open>safe_integer\<close>); a stored number beyond that is outside the model, and
    every property that depends on the text of a stored number assumes \<open>safe_integer\<close>.
  \<^item> What \<^verbatim>\<open>JSON.parse\<close> returns is a \<open>json\<close> value. A number literal is read as the
    double nearest to its decimal value (ties to even), a rational number, or as
    \<open>Infinity\<close> or \<open>-Infinity\<close> (\<open>JInf\<close>) when it is too large. \<open>-0\<close> is identified
    with \<open>0\<close>: they are equal for every comparison made here.
  \<^item> An object used as a dictionary is an association list in insertion order, holding
    the object's own properties; \<open>obj_keys\<close> enumerates them as \<^verbatim>\<open>Object.keys\<close> does
    (array indices first, ascending, then the other keys in insertion order). A plain
    object also inherits the members of \<^verbatim>\<open>Object.prototype\<close> (\<open>prototype_names\<close>), which
    a read \<^verbatim>\<open>o[k]\<close> sees and a write \<^verbatim>\<open>o["__proto__"] = v\<close> does not turn into an own
    property. The association list is the object exactly as long as no key used is one
    of these names; data with such keys is outside the model, and every property of the
    aggregation states this as a hypothesis (\<open>plain_data\<close>, \<open>plain_rows\<close>,
    \<open>plain_filters\<close>).
  \<^item> \<^verbatim>\<open>console.error\<close> and \<^verbatim>\<open>console.log\<close> write to a stream the pipeline never
    reads; they are left out. The relational \<^verbatim>\<open>aggregateData\<close> throws a
    \<^verbatim>\<open>TypeError\<close> when its argument is not an array; here the argument is a list.
  \<^item> \<^verbatim>\<open>Array.prototype.sort\<close> is stable (ECMAScript 2019, Node 11 and later; the
    repository asks for Node 12).
\<close>

subsection \<open>Characters and decimal digits\<close>

definition is_digit :: "char \<Rightarrow> bool" where
  "is_digit c = (48 \<le> (of_char c :: nat) \<and> (of_char c :: nat) \<le> 57)"

definition digit_val :: "char \<Rightarrow> nat" where
  "digit_val c = of_char c - 48"

definition digit_char :: "nat \<Rightarrow> char" where
  "digit_char n = char_of (48 + n)"

text \<open>The value of a run of digits, and the digits of a non-negative integer.\<close>

definition int_of_digits :: "string \<Rightarrow> int" where
  "int_of_digits s = foldl (\<lambda>a c. 10 * a + int (digit_val c)) 0 s"

function digits_of :: "int \<Rightarrow> string" where
  "digits_of n =
     (if n < 10 then [digit_char (nat n)]
      else digits_of (n div 10) @ [digit_char (nat (n mod 10))])"
  by pat_completeness auto

termination digits_of
  by (relation "measure nat") auto

declare digits_of.simps [simp del]

text \<open>Powers with a non-negative integer exponent, by repeated squaring.\<close>

function int_power :: "int \<Rightarrow> int \<Rightarrow> int" where
  "int_power b e =
     (if e \<le> 0 then 1
      else if e mod 2 = 0 then int_power (b * b) (e div 2)
      else b * int_power (b * b) (e div 2))"
  by pat_completeness auto

termination int_power
  by (relation "measure (\<lambda>(b, e). nat e)") auto

declare int_power.simps [simp del]

text \<open>The number of binary digits of a positive integer.\<close>

function bit_length :: "int \<Rightarrow> int" where
  "bit_length n = (if n \<le> 0 then 0 else 1 + bit_length (n div 2))"
  by pat_completeness auto

termination bit_length
  by (relation "measure nat") auto

declare bit_length.simps [simp del]

subsection \<open>\<^verbatim>\<open>String.prototype.split\<close> with a one-character separator\<close>

text \<open>
  \<^verbatim>\<open>s.split(sep)\<close> cuts at every occurrence of the separator and always returns at least
  one piece: \<^verbatim>\<open>"".split(":")\<close> is \<^verbatim>\<open>[""]\<close>.
\<close>

fun split_on :: "char \<Rightarrow> string \<Rightarrow> string list" where
  "split_on sep [] = [[]]"
| "split_on sep (c # cs) =
     (if c = sep then [] # split_on sep cs
      else (case split_on sep cs of
              [] \<Rightarrow> [[c]]
            | p # ps \<Rightarrow> (c # p) # ps))"

subsection \<open>Objects used as dictionaries\<close>

type_synonym 'a obj = "(string \<times> 'a) list"

text \<open>
  The names of the members that every plain object inherits from
  \<^verbatim>\<open>Object.prototype\<close> (Node 12).
\<close>

definition prototype_names :: "string list" where
  "prototype_names =
     [''constructor'', ''__defineGetter__'', ''__defineSetter__'', ''hasOwnProperty'',
      ''__lookupGetter__'', ''__lookupSetter__'', ''isPrototypeOf'', ''propertyIsEnumerable'',
      ''toString'', ''valueOf'', ''__proto__'', ''toLocaleString'']"

text \<open>
  \<^verbatim>\<open>o[k] = v\<close>: an existing key keeps its place, a new key goes last. This is the
  assignment for every key but \<^verbatim>\<open>__proto__\<close>, for which JavaScript calls the setter of
  \<^verbatim>\<open>Object.prototype\<close> and makes no own property.
\<close>

fun obj_set :: "string \<Rightarrow> 'a \<Rightarrow> 'a obj \<Rightarrow> 'a obj" where
  "obj_set k v [] = [(k, v)]"
| "obj_set k v (p # ps) = (if fst p = k then (k, v) # ps else p # obj_set k v ps)"

text \<open>
  \<^verbatim>\<open>o[k]\<close> on the own properties, with \<open>None\<close> for \<^verbatim>\<open>undefined\<close>. This is the read
  for every key that is not in \<open>prototype_names\<close>, as long as nothing was added to
  \<^verbatim>\<open>Object.prototype\<close>.
\<close>

definition obj_get :: "'a obj \<Rightarrow> string \<Rightarrow> 'a option" where
  "obj_get ob k = map_of ob k"

text \<open>
  An array index is a canonical numeric string below \<open>2^32 - 1\<close>: \<^verbatim>\<open>"0"\<close>, or digits
  that do not start with \<^verbatim>\<open>0\<close>.
\<close>

definition is_array_index :: "string \<Rightarrow> bool" where
  "is_array_index s =
     (s \<noteq> [] \<and> list_all is_digit s \<and> (s = ''0'' \<or> hd s \<noteq> CHR ''0'')
      \<and> int_of_digits s < 4294967295)"

definition obj_keys :: "'a obj \<Rightarrow> string list" where
  "obj_keys ob =
     (let ks = map fst ob
      in sort_key int_of_digits (filter is_array_index ks)
         @ filter (\<lambda>k. \<not> is_array_index k) ks)"

text \<open>\<^verbatim>\<open>Object.entries(o)\<close>: the keys of \<open>obj_keys\<close>, each with its value.\<close>

definition obj_entries :: "'a obj \<Rightarrow> (string \<times> 'a) list" where
  "obj_entries ob = List.map_filter (\<lambda>k. map_option (Pair k) (obj_get ob k)) (obj_keys ob)"

subsection \<open>Values\<close>

datatype scalar = VNull | VBool bool | VNum int | VStr string

text \<open>
  The numbers of \<open>json\<close>: \<open>JNum q\<close> is a finite double, \<open>JInf False\<close> is \<^verbatim>\<open>Infinity\<close> and
  \<open>JInf True\<close> is \<^verbatim>\<open>-Infinity\<close>.
\<close>

datatype json =
    JNull
  | JBool bool
  | JNum rat
  | JInf bool
  | JStr string
  | JArr "json list"
  | JObj "(string \<times> json) list"

record property =
  slug :: string
  ptype :: string
  val :: scalar

record entity =
  model :: string
  properties :: "property list"

subsection \<open>\<^verbatim>\<open>JSON.parse\<close>\<close>

text \<open>
  \<^verbatim>\<open>JSON.parse\<close> is a built-in of the language; the definitions below follow the JSON
  grammar of ECMA-404. A text is cut into tokens and the tokens are read by a pushdown
  machine. The tokens of JSON are regular, and no two value tokens may touch, so the
  lexer reads a number as a maximal run of the characters \<^verbatim>\<open>0-9+-.eE\<close> and a literal
  name as a maximal run of lower-case letters, and then checks the run.
\<close>

definition is_ws :: "char \<Rightarrow> bool" where
  "is_ws c = (c = CHR 0x20 \<or> c = CHR 0x09 \<or> c = CHR 0x0A \<or> c = CHR 0x0D)"

definition is_num_char :: "char \<Rightarrow> bool" where
  "is_num_char c =
     (is_digit c \<or> c = CHR ''+'' \<or> c = CHR ''-'' \<or> c = CHR ''.'' \<or> c = CHR ''e'' \<or> c = CHR ''E'')"

definition is_lit_char :: "char \<Rightarrow> bool" where
  "is_lit_char c = (97 \<le> (of_char c :: nat) \<and> (of_char c :: nat) \<le> 122)"

text \<open>
  Doubles. A finite double is \<open>k * 2^u\<close> for integers \<open>\<bar>k\<bar> < 2^53\<close> and
  \<open>- 1074 \<le> u \<le> 971\<close>. For positive integers \<open>n\<close> and \<open>d\<close>, \<open>floor_log2 n d\<close> is the
  integer \<open>e\<close> with \<open>2^e \<le> n/d < 2^(e+1)\<close>, and \<open>round_half_even n d\<close> is the integer
  nearest to \<open>n/d\<close>, the even one of two that are equally near.
\<close>

definition floor_log2 :: "int \<Rightarrow> int \<Rightarrow> int" where
  "floor_log2 n d =
     (let e0 = bit_length n - bit_length d
      in if (if 0 \<le> e0 then d * int_power 2 e0 \<le> n else d \<le> n * int_power 2 (- e0))
         then e0 else e0 - 1)"

definition round_half_even :: "int \<Rightarrow> int \<Rightarrow> int" where
  "round_half_even n d =
     (let k = n div d;
          r = n mod d
      in if 2 * r < d then k
         else if d < 2 * r then k + 1
         else if k mod 2 = 0 then k else k + 1)"

text \<open>
  The double nearest to \<open>n/d\<close> (\<open>0 \<le> n\<close>, \<open>0 < d\<close>), negated when \<open>neg\<close> holds: with
  \<open>e = floor_log2 n d\<close> the doubles around \<open>n/d\<close> are the multiples of \<open>2^u\<close> for
  \<open>u = max (e - 52) (- 1074)\<close> (53 significant bits, or the spacing of the subnormal
  numbers), \<open>n/d\<close> is rounded to the nearest multiple, and a result of \<open>2^1024\<close> or more
  is infinite.
\<close>

definition nearest_double :: "bool \<Rightarrow> int \<Rightarrow> int \<Rightarrow> json" where
  "nearest_double neg n d =
     (if n = 0 then JNum 0
      else (let u = max (floor_log2 n d - 52) (- 1074);
                k = (if 0 \<le> u then round_half_even n (d * int_power 2 u)
                     else round_half_even (n * int_power 2 (- u)) d);
                s = (if neg then - k else k)
            in if 0 \<le> u then
                 (if int_power 2 1024 \<le> k * int_power 2 u then JInf neg
                  else JNum (of_int (s * int_power 2 u)))
               else JNum (of_int s / of_int (int_power 2 (- u)))))"

text \<open>The double nearest to \<open>m * 10^e\<close> for \<open>0 \<le> m\<close>, negated when \<open>neg\<close> holds.\<close>

definition decimal_double :: "bool \<Rightarrow> int \<Rightarrow> int \<Rightarrow> json" where
  "decimal_double neg m e =
     (if 0 \<le> e then nearest_double neg (m * int_power 10 e) 1
      else nearest_double neg m (int_power 10 (- e)))"

text \<open>The exponent part of a number: empty, or \<^verbatim>\<open>e\<close> or \<^verbatim>\<open>E\<close>, an optional sign, digits.\<close>

definition exponent_of_text :: "string \<Rightarrow> int option" where
  "exponent_of_text s =
     (case s of
        [] \<Rightarrow> Some 0
      | c # cs \<Rightarrow>
          if c = CHR ''e'' \<or> c = CHR ''E'' then
            (let neg = (cs \<noteq> [] \<and> hd cs = CHR ''-'');
                 signed = (cs \<noteq> [] \<and> (hd cs = CHR ''-'' \<or> hd cs = CHR ''+''));
                 ds = (if signed then tl cs else cs)
             in if ds \<noteq> [] \<and> list_all is_digit ds
                then Some (if neg then - int_of_digits ds else int_of_digits ds)
                else None)
          else None)"

text \<open>
  A number: an optional minus, an integer part without a leading zero (or \<^verbatim>\<open>0\<close> alone),
  an optional fraction with at least one digit, an optional exponent. Its value is the
  double nearest to the decimal value of the literal.
\<close>

definition number_of_text :: "string \<Rightarrow> json option" where
  "number_of_text s =
     (let neg = (s \<noteq> [] \<and> hd s = CHR ''-'');
          s1 = (if neg then tl s else s);
          ip = takeWhile is_digit s1;
          r1 = dropWhile is_digit s1;
          has_frac = (r1 \<noteq> [] \<and> hd r1 = CHR ''.'');
          fp = (if has_frac then takeWhile is_digit (tl r1) else []);
          r2 = (if has_frac then dropWhile is_digit (tl r1) else r1)
      in if ip = [] \<or> (1 < length ip \<and> hd ip = CHR ''0'') \<or> (has_frac \<and> fp = []) then None
         else (case exponent_of_text r2 of
                 None \<Rightarrow> None
               | Some e \<Rightarrow>
                   Some (decimal_double neg (int_of_digits (ip @ fp)) (e - int (length fp)))))"

definition literal_of_text :: "string \<Rightarrow> json option" where
  "literal_of_text s =
     (if s = ''true'' then Some (JBool True)
      else if s = ''false'' then Some (JBool False)
      else if s = ''null'' then Some JNull
      else None)"

text \<open>The UTF-8 bytes of a code point (a lone surrogate is written like any other).\<close>

definition utf8 :: "int \<Rightarrow> string" where
  "utf8 n =
     (if n < 128 then [char_of n]
      else if n < 2048 then [char_of (192 + n div 64), char_of (128 + n mod 64)]
      else if n < 65536 then
        [char_of (224 + n div 4096), char_of (128 + n div 64 mod 64), char_of (128 + n mod 64)]
      else
        [char_of (240 + n div 262144), char_of (128 + n div 4096 mod 64),
         char_of (128 + n div 64 mod 64), char_of (128 + n mod 64)])"

definition hex_val :: "char \<Rightarrow> int option" where
  "hex_val c =
     (let n = (of_char c :: int)
      in if 48 \<le> n \<and> n \<le> 57 then Some (n - 48)
         else if 97 \<le> n \<and> n \<le> 102 then Some (n - 87)
         else if 65 \<le> n \<and> n \<le> 70 then Some (n - 55)
         else None)"

definition hex4 :: "string \<Rightarrow> int option" where
  "hex4 s =
     (case map hex_val s of
        [Some a, Some b, Some c, Some d] \<Rightarrow> Some (((a * 16 + b) * 16 + c) * 16 + d)
      | _ \<Rightarrow> None)"

text \<open>The six characters \<^verbatim>\<open>\uXXXX\<close> of a low surrogate, which pairs with a high one before it.\<close>

definition low_escape :: "string \<Rightarrow> int option" where
  "low_escape s =
     (if length s = 6 \<and> s ! 0 = CHR 0x5C \<and> s ! 1 = CHR ''u'' then
        (case hex4 (drop 2 s) of
           None \<Rightarrow> None
         | Some n \<Rightarrow> if 56320 \<le> n \<and> n < 57344 then Some n else None)
      else None)"

definition simple_escape :: "char \<Rightarrow> char option" where
  "simple_escape d =
     (if d = CHR 0x22 then Some (CHR 0x22)
      else if d = CHR 0x5C then Some (CHR 0x5C)
      else if d = CHR ''/'' then Some (CHR ''/'')
      else if d = CHR ''b'' then Some (CHR 0x08)
      else if d = CHR ''f'' then Some (CHR 0x0C)
      else if d = CHR ''n'' then Some (CHR 0x0A)
      else if d = CHR ''r'' then Some (CHR 0x0D)
      else if d = CHR ''t'' then Some (CHR 0x09)
      else None)"

text \<open>The characters between the quotes of a string literal, with the escapes resolved.\<close>

fun unescape :: "string \<Rightarrow> string option" where
  "unescape [] = Some []"
| "unescape (c # cs) =
     (if c \<noteq> CHR 0x5C then map_option ((#) c) (unescape cs)
      else (case cs of
              [] \<Rightarrow> None
            | d # ds \<Rightarrow>
                if d = CHR ''u'' then
                  (case hex4 (take 4 ds) of
                     None \<Rightarrow> None
                   | Some hi \<Rightarrow>
                       (case low_escape (take 6 (drop 4 ds)) of
                          None \<Rightarrow> map_option ((@) (utf8 hi)) (unescape (drop 4 ds))
                        | Some lo \<Rightarrow>
                            if 55296 \<le> hi \<and> hi < 56320
                            then map_option
                                   ((@) (utf8 (65536 + (hi - 55296) * 1024 + (lo - 56320))))
                                   (unescape (drop 10 ds))
                            else map_option ((@) (utf8 hi)) (unescape (drop 4 ds))))
                else (case simple_escape d of
                        None \<Rightarrow> None
                      | Some e \<Rightarrow> map_option ((#) e) (unescape ds))))"

datatype token = TLBrack | TRBrack | TLBrace | TRBrace | TComma | TColon | TVal json

datatype lstate = LIdle | LNum string | LLit string | LStr string | LEsc string

definition punct :: "char \<Rightarrow> token option" where
  "punct c =
     (if c = CHR ''['' then Some TLBrack
      else if c = CHR '']'' then Some TRBrack
      else if c = CHR ''{'' then Some TLBrace
      else if c = CHR ''}'' then Some TRBrace
      else if c = CHR '','' then Some TComma
      else if c = CHR '':'' then Some TColon
      else None)"

fun emit :: "token option \<Rightarrow> token list option \<Rightarrow> token list option" where
  "emit (Some t) (Some ts) = Some (t # ts)"
| "emit _ _ = None"

text \<open>The accumulators of the lexer hold the characters read so far, last first.\<close>

definition num_token :: "string \<Rightarrow> token option" where
  "num_token acc = map_option TVal (number_of_text (rev acc))"

definition lit_token :: "string \<Rightarrow> token option" where
  "lit_token acc = map_option TVal (literal_of_text (rev acc))"

definition str_token :: "string \<Rightarrow> token option" where
  "str_token acc = map_option (\<lambda>s. TVal (JStr s)) (unescape (rev acc))"

function (sequential) lex :: "lstate \<Rightarrow> string \<Rightarrow> token list option" where
  "lex LIdle [] = Some []"
| "lex (LNum acc) [] = emit (num_token acc) (Some [])"
| "lex (LLit acc) [] = emit (lit_token acc) (Some [])"
| "lex (LStr acc) [] = None"
| "lex (LEsc acc) [] = None"
| "lex LIdle (c # cs) =
     (if is_ws c then lex LIdle cs
      else (case punct c of
              Some t \<Rightarrow> emit (Some t) (lex LIdle cs)
            | None \<Rightarrow>
                if c = CHR 0x22 then lex (LStr []) cs
                else if is_num_char c then lex (LNum [c]) cs
                else if is_lit_char c then lex (LLit [c]) cs
                else None))"
| "lex (LNum acc) (c # cs) =
     (if is_num_char c then lex (LNum (c # acc)) cs
      else emit (num_token acc) (lex LIdle (c # cs)))"
| "lex (LLit acc) (c # cs) =
     (if is_lit_char c then lex (LLit (c # acc)) cs
      else emit (lit_token acc) (lex LIdle (c # cs)))"
| "lex (LStr acc) (c # cs) =
     (if c = CHR 0x22 then emit (str_token acc) (lex LIdle cs)
      else if c = CHR 0x5C then lex (LEsc (c # acc)) cs
      else if (of_char c :: nat) < 32 then None
      else lex (LStr (c # acc)) cs)"
| "lex (LEsc acc) (c # cs) = lex (LStr (c # acc)) cs"
  by pat_completeness auto

termination lex
  by (relation "measure (\<lambda>(st, s). 2 * length s + (case st of LIdle \<Rightarrow> 0 | _ \<Rightarrow> 1))") auto

text \<open>
  The pushdown machine. A frame is an array or an object under construction (the
  elements of an array last first); \<open>FKey\<close> is an object whose next member has its key
  and colon and waits for its value.
\<close>

datatype frame =
    FArr "json list"
  | FObj "(string \<times> json) list"
  | FKey "(string \<times> json) list" string

datatype pmode = PVal | PValOrEnd | PKeyOrEnd | PKey | PColon string | PSep | PFin json

fun put :: "json \<Rightarrow> frame list \<Rightarrow> (pmode \<times> frame list) option" where
  "put v [] = Some (PFin v, [])"
| "put v (FArr es # st) = Some (PSep, FArr (v # es) # st)"
| "put v (FKey ms k # st) = Some (PSep, FObj (obj_set k v ms) # st)"
| "put v (FObj ms # st) = None"

fun close_arr :: "frame list \<Rightarrow> (pmode \<times> frame list) option" where
  "close_arr (FArr es # st) = put (JArr (rev es)) st"
| "close_arr _ = None"

fun close_obj :: "frame list \<Rightarrow> (pmode \<times> frame list) option" where
  "close_obj (FObj ms # st) = put (JObj ms) st"
| "close_obj _ = None"

fun open_value :: "frame list \<Rightarrow> token \<Rightarrow> (pmode \<times> frame list) option" where
  "open_value st (TVal v) = put v st"
| "open_value st TLBrack = Some (PValOrEnd, FArr [] # st)"
| "open_value st TLBrace = Some (PKeyOrEnd, FObj [] # st)"
| "open_value st _ = None"

fun open_key :: "frame list \<Rightarrow> token \<Rightarrow> (pmode \<times> frame list) option" where
  "open_key st (TVal (JStr k)) = Some (PColon k, st)"
| "open_key st _ = None"

fun step :: "pmode \<Rightarrow> frame list \<Rightarrow> token \<Rightarrow> (pmode \<times> frame list) option" where
  "step PVal st t = open_value st t"
| "step PValOrEnd st t = (if t = TRBrack then close_arr st else open_value st t)"
| "step PKeyOrEnd st t = (if t = TRBrace then close_obj st else open_key st t)"
| "step PKey st t = open_key st t"
| "step (PColon k) st t =
     (case (t, st) of
        (TColon, FObj ms # st') \<Rightarrow> Some (PVal, FKey ms k # st')
      | _ \<Rightarrow> None)"
| "step PSep st t =
     (case (t, st) of
        (TComma, FArr es # st') \<Rightarrow> Some (PVal, st)
      | (TComma, FObj ms # st') \<Rightarrow> Some (PKey, st)
      | (TRBrack, _) \<Rightarrow> close_arr st
      | (TRBrace, _) \<Rightarrow> close_obj st
      | _ \<Rightarrow> None)"
| "step (PFin v) st t = None"

fun run_tokens :: "pmode \<Rightarrow> frame list \<Rightarrow> token list \<Rightarrow> json option" where
  "run_tokens m st [] = (case m of PFin v \<Rightarrow> Some v | _ \<Rightarrow> None)"
| "run_tokens m st (t # ts) =
     (case step m st t of
        None \<Rightarrow> None
      | Some (m', st') \<Rightarrow> run_tokens m' st' ts)"

text \<open>\<^verbatim>\<open>JSON.parse(text)\<close>, with \<open>None\<close> for the \<^verbatim>\<open>SyntaxError\<close> it throws.\<close>

definition JSON_parse :: "string \<Rightarrow> json option" where
  "JSON_parse s = (case lex LIdle s of None \<Rightarrow> None | Some ts \<Rightarrow> run_tokens PVal [] ts)"

subsection \<open>\<^verbatim>\<open>parseValue\<close> and \<^verbatim>\<open>parsePropertyFilters\<close>\<close>

text \<open>
  \<^verbatim>\<open>
  const parseValue = (value) => {
    try { return JSON.parse(value); } catch (e) { return value; }
  };
  \<close>
\<close>

definition parseValue :: "string \<Rightarrow> json" where
  "parseValue s = (case JSON_parse s of Some v \<Rightarrow> v | None \<Rightarrow> JStr s)"

text \<open>
  \<^verbatim>\<open>
  function parsePropertyFilters(propertyFilters) {
    const propertyFilterMap = {};
    if (propertyFilters) {
      propertyFilters.forEach((filter) => {
        const [key, values] = filter.split(":");
        if (!key || !values) {
          console.error(`Invalid property filter format: ${filter}`);
          return;
        }
        propertyFilterMap[key] = values.split(",").map(parseValue);
      });
    }
    return propertyFilterMap;
  }
  \<close>
  The destructuring takes the first two pieces of the split: \<^verbatim>\<open>values\<close> is
  \<^verbatim>\<open>undefined\<close> when there is one piece only, and \<^verbatim>\<open>!values\<close> holds for
  \<^verbatim>\<open>undefined\<close> and for the empty string. \<open>parse_filter\<close> is the body of the
  \<^verbatim>\<open>forEach\<close>; the argument is \<open>None\<close> when the option is not given.
\<close>

definition parse_filter :: "string \<Rightarrow> json list obj \<Rightarrow> json list obj" where
  "parse_filter filter_text propertyFilterMap =
     (case split_on CHR '':'' filter_text of
        key # values # rest \<Rightarrow>
          if key = [] \<or> values = [] then propertyFilterMap
          else obj_set key (map parseValue (split_on CHR '','' values)) propertyFilterMap
      | _ \<Rightarrow> propertyFilterMap)"

definition parsePropertyFilters :: "string list option \<Rightarrow> json list obj" where
  "parsePropertyFilters propertyFilters =
     (case propertyFilters of
        None \<Rightarrow> []
      | Some fs \<Rightarrow> fold parse_filter fs [])"

subsection \<open>\<^verbatim>\<open>filterData\<close> (file variant)\<close>

text \<open>
  \<^verbatim>\<open>acceptableValues.includes(prop.value)\<close> compares with SameValueZero: values of
  different types are never equal, and an array or object made by \<^verbatim>\<open>JSON.parse\<close> is
  equal to nothing but itself, so to no stored value.
\<close>

fun same_value_zero :: "json \<Rightarrow> scalar \<Rightarrow> bool" where
  "same_value_zero JNull VNull = True"
| "same_value_zero (JBool a) (VBool b) = (a = b)"
| "same_value_zero (JNum q) (VNum n) = (q = of_int n)"
| "same_value_zero (JStr s) (VStr t) = (s = t)"
| "same_value_zero _ _ = False"

definition includes_val :: "json list \<Rightarrow> scalar \<Rightarrow> bool" where
  "includes_val acceptableValues v = list_ex (\<lambda>a. same_value_zero a v) acceptableValues"

text \<open>
  \<^verbatim>\<open>
  const modelMatch =
    !modelFilters || modelFilters.length === 0 || modelFilters.includes(entity.model);
  \<close>
\<close>

definition modelMatch :: "string list option \<Rightarrow> entity \<Rightarrow> bool" where
  "modelMatch modelFilters e =
     (case modelFilters of
        None \<Rightarrow> True
      | Some ms \<Rightarrow> ms = [] \<or> model e \<in> set ms)"

text \<open>
  \<^verbatim>\<open>
  const propertyMatch = Object.keys(propertyFilterMap).every((key) => {
    const acceptableValues = propertyFilterMap[key];
    const prop = entity.properties.find((p) => p.slug === key);
    if (!prop || prop.value === null) return false;
    return acceptableValues.includes(prop.value);
  });
  \<close>
\<close>

definition key_match :: "json list obj \<Rightarrow> entity \<Rightarrow> string \<Rightarrow> bool" where
  "key_match propertyFilterMap e key =
     (case obj_get propertyFilterMap key of
        None \<Rightarrow> False
      | Some acceptableValues \<Rightarrow>
          (case find (\<lambda>p. slug p = key) (properties e) of
             None \<Rightarrow> False
           | Some prop \<Rightarrow> if val prop = VNull then False else includes_val acceptableValues (val prop)))"

definition propertyMatch :: "json list obj \<Rightarrow> entity \<Rightarrow> bool" where
  "propertyMatch propertyFilterMap e =
     list_all (key_match propertyFilterMap e) (obj_keys propertyFilterMap)"

definition filterData :: "entity list \<Rightarrow> string list option \<Rightarrow> json list obj \<Rightarrow> entity list" where
  "filterData data modelFilters propertyFilterMap =
     filter (\<lambda>e. modelMatch modelFilters e \<and> propertyMatch propertyFilterMap e) data"

subsection \<open>\<^verbatim>\<open>aggregateData\<close> and \<^verbatim>\<open>formatAggregation\<close> (file variant)\<close>

text \<open>
  The integers that a double holds exactly and that no other integer is rounded to
  (\<^verbatim>\<open>Number.isSafeInteger\<close>).
\<close>

definition safe_integer :: "int \<Rightarrow> bool" where
  "safe_integer n = (\<bar>n\<bar> < 9007199254740992)"

text \<open>
  \<^verbatim>\<open>JSON.stringify\<close> on a number that is a safe integer: its decimal digits, after a
  minus sign when it is negative. (Of a larger integer JavaScript prints the shortest
  digits that read back as the same double, \<^verbatim>\<open>1152921504606847000\<close> for \<open>2^60\<close>;
  \<open>number_to_string\<close> is not that text, and is used for safe integers only.)
\<close>

definition number_to_string :: "int \<Rightarrow> string" where
  "number_to_string i = (if i < 0 then CHR ''-'' # digits_of (- i) else digits_of i)"

text \<open>
  \<^verbatim>\<open>const valueKey = typeof value === "string" ? value : JSON.stringify(value);\<close>
\<close>

fun valueKey :: "scalar \<Rightarrow> string" where
  "valueKey (VStr s) = s"
| "valueKey (VNum n) = number_to_string n"
| "valueKey (VBool b) = (if b then ''true'' else ''false'')"
| "valueKey VNull = ''null''"

text \<open>
  The body shared by both variants, once the value is known not to be null:
  \<^verbatim>\<open>
  if (!aggregation[slug]) { aggregation[slug] = {}; }
  aggregation[slug][valueKey] = (aggregation[slug][valueKey] || 0) + 1;
  \<close>
  \<open>increment\<close> is this body for a slug and a value key that are not in
  \<open>prototype_names\<close>. For the slug \<^verbatim>\<open>__proto__\<close> the code finds \<^verbatim>\<open>Object.prototype\<close> in
  place of a count object and writes the count there, where every later bucket
  inherits it; for a value key such as \<^verbatim>\<open>constructor\<close> it finds the inherited function
  in place of a count and stores a string.
\<close>

definition increment :: "string \<Rightarrow> string \<Rightarrow> nat obj obj \<Rightarrow> nat obj obj" where
  "increment slug_name key aggregation =
     (let aggregation1 =
            (if obj_get aggregation slug_name = None then obj_set slug_name [] aggregation
             else aggregation);
          counts = (case obj_get aggregation1 slug_name of Some c \<Rightarrow> c | None \<Rightarrow> []);
          n = (case obj_get counts key of Some m \<Rightarrow> m | None \<Rightarrow> 0)
      in obj_set slug_name (obj_set key (n + 1) counts) aggregation1)"

text \<open>
  \<^verbatim>\<open>
  entity.properties.forEach((prop) => {
    const slug = prop.slug;
    const value = prop.value;
    if (value === null) return; // Skip null values
    ...
  \<close>
\<close>

definition aggregate_prop :: "property \<Rightarrow> nat obj obj \<Rightarrow> nat obj obj" where
  "aggregate_prop prop aggregation =
     (if val prop = VNull then aggregation
      else increment (slug prop) (valueKey (val prop)) aggregation)"

definition aggregateData :: "entity list \<Rightarrow> nat obj obj" where
  "aggregateData filteredData = fold (\<lambda>e. fold aggregate_prop (properties e)) filteredData []"

text \<open>
  \<^verbatim>\<open>
  const sortedAggregations = Object.entries(counts)
    .map(([value, count]) => [parseValue(value), count])
    .sort((a, b) => b[1] - a[1]); // Sort by count descending
  result[slug] = sortedAggregations;
  \<close>
  \<^verbatim>\<open>Array.prototype.sort\<close> is stable, as is \<open>sort_key\<close>.
\<close>

definition sort_desc :: "('a \<times> nat) list \<Rightarrow> ('a \<times> nat) list" where
  "sort_desc xs = sort_key (\<lambda>p. - int (snd p)) xs"




subsection \<open>\<^verbatim>\<open>aggregateData\<close> and \<^verbatim>\<open>formatAggregation\<close> (relational variant)\<close>

text \<open>
  A row of the relational store is a flat object from column name to value.
  \<^verbatim>\<open>
  const booleanColumns = ["stolen", "impounded"];
  ...
  Object.keys(entity).forEach((key) => {
    let value = entity[key];
    if (value === null || value === undefined) return;
    if (booleanColumns.includes(key)) {
      if (value === 1) { value = true; } else if (value === 0) { value = false; }
    }
    const valueKey = typeof value === "string" ? value : JSON.stringify(value);
    ...
  \<close>
\<close>

definition booleanColumns :: "string list" where
  "booleanColumns = [''stolen'', ''impounded'']"

definition normalize_boolean :: "string \<Rightarrow> scalar \<Rightarrow> scalar" where
  "normalize_boolean key v =
     (if key \<in> set booleanColumns then
        (if v = VNum 1 then VBool True else if v = VNum 0 then VBool False else v)
      else v)"

definition aggregate_column :: "scalar obj \<Rightarrow> string \<Rightarrow> nat obj obj \<Rightarrow> nat obj obj" where
  "aggregate_column row key aggregation =
     (case obj_get row key of
        None \<Rightarrow> aggregation
      | Some v \<Rightarrow>
          if v = VNull then aggregation
          else increment key (valueKey (normalize_boolean key v)) aggregation)"

definition aggregateData_db :: "scalar obj list \<Rightarrow> nat obj obj" where
  "aggregateData_db filteredData =
     fold (\<lambda>row. fold (aggregate_column row) (obj_keys row)) filteredData []"

text \<open>
  \<^verbatim>\<open>
  const sortedAggregations = Object.entries(counts)
    .map(([value, count]) => [value, count]) // Booleans are already mapped
    .sort((a, b) => b[1] - a[1]); // Sort by count descending
  \<close>
\<close>

definition format_slug_db :: "nat obj obj \<Rightarrow> string \<Rightarrow> (string \<times> nat) list obj \<Rightarrow> (string \<times> nat) list obj" where
  "format_slug_db aggregation key result =
     (case obj_get aggregation key of
        None \<Rightarrow> result
      | Some counts \<Rightarrow>
          obj_set key (sort_desc (map (\<lambda>(value, count). (value, count)) (obj_entries counts))) result)"

definition formatAggregation_db :: "nat obj obj \<Rightarrow> (string \<times> nat) list obj" where
  "formatAggregation_db aggregation = fold (format_slug_db aggregation) (obj_keys aggregation) []"

subsection \<open>Notions used to state the properties\<close>

text \<open>
  The count stored for a slug and a value key, 0 when there is none; the invariant of
  every aggregation the code builds; and the pairs of slug and value key that the
  non-null properties of a list of entities give rise to, one per property.
\<close>

definition bucket :: "nat obj obj \<Rightarrow> string \<Rightarrow> string \<Rightarrow> nat" where
  "bucket aggregation slug_name key =
     (case obj_get aggregation slug_name of
        None \<Rightarrow> 0
      | Some counts \<Rightarrow> (case obj_get counts key of None \<Rightarrow> 0 | Some n \<Rightarrow> n))"

definition wf_counts :: "nat obj \<Rightarrow> bool" where
  "wf_counts counts = (counts \<noteq> [] \<and> distinct (map fst counts) \<and> list_all (\<lambda>p. 0 < snd p) counts)"

definition wf_agg :: "nat obj obj \<Rightarrow> bool" where
  "wf_agg aggregation =
     (distinct (map fst aggregation) \<and> list_all (\<lambda>p. wf_counts (snd p)) aggregation)"

definition occurrences :: "entity list \<Rightarrow> (string \<times> string) list" where
  "occurrences es =
     concat (map (\<lambda>e. map (\<lambda>p. (slug p, valueKey (val p)))
                        (filter (\<lambda>p. val p \<noteq> VNull) (properties e))) es)"

text \<open>
  The data for which the association lists are the objects of the code: no slug and no
  value key of a non-null property is in \<open>prototype_names\<close>, and every number is a safe
  integer. For flat rows the same is asked of every column, and the keys of a row are
  distinct, as the keys of an object are. A list of raw filter entries is plain when
  no entry has the key \<^verbatim>\<open>__proto__\<close>.
\<close>

definition plain_value :: "scalar \<Rightarrow> bool" where
  "plain_value v =
     (case v of
        VNum n \<Rightarrow> safe_integer n
      | VStr str \<Rightarrow> str \<notin> set prototype_names
      | _ \<Rightarrow> True)"

definition plain_property :: "property \<Rightarrow> bool" where
  "plain_property p = (val p = VNull \<or> (slug p \<notin> set prototype_names \<and> plain_value (val p)))"

definition plain_data :: "entity list \<Rightarrow> bool" where
  "plain_data es = list_all (\<lambda>e. list_all plain_property (properties e)) es"




text \<open>
  The decimal text of an integer, as \<^verbatim>\<open>JSON.stringify\<close> and \<^verbatim>\<open>Number.prototype.toString\<close>
  are specified for it: a minus sign when it is negative, then the decimal digits of
  its absolute value, most significant first and without a leading zero.
\<close>

definition decimal_text :: "int \<Rightarrow> string \<Rightarrow> bool" where
  "decimal_text n s =
     (let ds = (if n < 0 then tl s else s)
      in (if n < 0 then s \<noteq> [] \<and> hd s = CHR ''-'' else True)
         \<and> ds \<noteq> [] \<and> list_all is_digit ds
         \<and> (length ds = 1 \<or> hd ds \<noteq> CHR ''0'')
         \<and> int_of_digits ds = \<bar>n\<bar>)"

text \<open>Entities used as concrete inputs.\<close>

definition vehicle_2008 :: entity where
  "vehicle_2008 =
     \<lparr>model = ''vehicle'',
      properties = [\<lparr>slug = ''make'', ptype = ''string'', val = VStr ''toyota''\<rparr>,
                    \<lparr>slug = ''year'', ptype = ''integer'', val = VNum 2008\<rparr>]\<rparr>"

definition vehicle_text_2008 :: entity where
  "vehicle_text_2008 =
     \<lparr>model = ''vehicle'',
      properties = [\<lparr>slug = ''make'', ptype = ''string'', val = VStr ''honda''\<rparr>,
                    \<lparr>slug = ''year'', ptype = ''string'', val = VStr ''2008''\<rparr>]\<rparr>"

definition person_brown :: entity where
  "person_brown =
     \<lparr>model = ''person'',
      properties = [\<lparr>slug = ''hair_color'', ptype = ''string'', val = VStr ''brown''\<rparr>,
                    \<lparr>slug = ''age'', ptype = ''integer'', val = VNull\<rparr>]\<rparr>"

text \<open>
  The key and the value list that \<open>parse_filter\<close> takes from a raw entry; \<open>None\<close> for an
  entry it reports as invalid and skips.
\<close>

definition entry_of :: "string \<Rightarrow> (string \<times> json list) option" where
  "entry_of filter_text =
     (case split_on CHR '':'' filter_text of
        key # values # rest \<Rightarrow>
          if key = [] \<or> values = [] then None
          else Some (key, map parseValue (split_on CHR '','' values))
      | _ \<Rightarrow> None)"

text \<open>
  The parser as the specification words it, for comparison with the code: an entry is
  split on its first \<^verbatim>\<open>:\<close> into a key and a comma-separated value list, and is skipped
  when there is no \<^verbatim>\<open>:\<close> or either part is empty.
\<close>

definition split_first :: "char \<Rightarrow> string \<Rightarrow> (string \<times> string) option" where
  "split_first sep s =
     (if sep \<in> set s
      then Some (takeWhile (\<lambda>c. c \<noteq> sep) s, tl (dropWhile (\<lambda>c. c \<noteq> sep) s))
      else None)"

definition entry_spec :: "string \<Rightarrow> (string \<times> json list) option" where
  "entry_spec filter_text =
     (case split_first CHR '':'' filter_text of
        None \<Rightarrow> None
      | Some (key, values) \<Rightarrow>
          if key = [] \<or> values = [] then None
          else Some (key, map parseValue (split_on CHR '','' values)))"

definition parsePropertyFilters_spec :: "string list \<Rightarrow> json list obj" where
  "parsePropertyFilters_spec fs =
     fold (\<lambda>f m. case entry_spec f of None \<Rightarrow> m | Some (key, vs) \<Rightarrow> obj_set key vs m) fs []"



text \<open>
  The pairs of column name and value key that a flat row gives rise to, one per
  non-null column; and rows used as concrete inputs.
\<close>

definition row_occurrences :: "scalar obj \<Rightarrow> (string \<times> string) list" where
  "row_occurrences row =
     map (\<lambda>p. (fst p, valueKey (normalize_boolean (fst p) (snd p))))
       (filter (\<lambda>p. snd p \<noteq> VNull) (obj_entries row))"



text \<open>
  Type inference as the specification words it, for comparison with the code: the
  value is read as a scalar, a literal name or a number (with the white space that JSON
  allows around a value removed), and the original string is kept when it is neither.
\<close>

definition trim_ws :: "string \<Rightarrow> string" where
  "trim_ws s = rev (dropWhile is_ws (rev (dropWhile is_ws s)))"

definition scalar_of_text :: "string \<Rightarrow> json option" where
  "scalar_of_text t =
     (case literal_of_text t of
        Some v \<Rightarrow> Some v
      | None \<Rightarrow> number_of_text t)"

definition parseValue_spec :: "string \<Rightarrow> json" where
  "parseValue_spec s = (case scalar_of_text (trim_ws s) of Some v \<Rightarrow> v | None \<Rightarrow> JStr s)"

text \<open>An entity that has two properties of one slug.\<close>

definition two_years :: entity where
  "two_years =
     \<lparr>model = ''vehicle'',
      properties = [\<lparr>slug = ''year'', ptype = ''string'', val = VStr ''2008''\<rparr>,
                    \<lparr>slug = ''year'', ptype = ''integer'', val = VNum 2008\<rparr>]\<rparr>"

section \<open>Properties\<close>

subsection \<open>Objects\<close>

lemma split_on_nonempty: "split_on sep s \<noteq> []"
  by (induction s) (auto split: list.splits)

lemma obj_get_obj_set: "obj_get (obj_set k v ob) k' = (if k' = k then Some v else obj_get ob k')"
  by (induction ob) (auto simp: obj_get_def)

lemma keys_obj_set: "fst ` set (obj_set k v ob) = insert k (fst ` set ob)"
  by (induction ob) auto

lemma distinct_obj_set: "distinct (map fst ob) \<Longrightarrow> distinct (map fst (obj_set k v ob))"
proof (induction ob)
  case Nil
  then show ?case by simp
next
  case (Cons p ps)
  then show ?case using keys_obj_set [of k v ps] by auto
qed

lemma set_obj_set_subset: "set (obj_set k v ob) \<subseteq> insert (k, v) (set ob)"
  by (induction ob) auto

lemma obj_get_Some_iff: "distinct (map fst ob) \<Longrightarrow> obj_get ob k = Some v \<longleftrightarrow> (k, v) \<in> set ob"
  by (simp add: obj_get_def)

lemma obj_get_None_iff: "obj_get ob k = None \<longleftrightarrow> k \<notin> fst ` set ob"
  by (simp add: obj_get_def map_of_eq_None_iff)

lemma set_obj_keys: "set (obj_keys ob) = fst ` set ob"
  by (auto simp: obj_keys_def Let_def)

lemma distinct_obj_keys: "distinct (map fst ob) \<Longrightarrow> distinct (obj_keys ob)"
  by (auto simp: obj_keys_def Let_def)

lemma mset_obj_keys: "mset (obj_keys ob) = mset (map fst ob)"
  by (simp add: obj_keys_def Let_def)

lemma obj_entries_eq: "obj_entries ob = map (\<lambda>k. (k, the (obj_get ob k))) (obj_keys ob)"
proof -
  have some: "\<forall>k \<in> set (obj_keys ob). \<exists>v. obj_get ob k = Some v"
    by (auto simp: set_obj_keys obj_get_def weak_map_of_SomeI)
  then have "filter (\<lambda>k. map_option (Pair k) (obj_get ob k) \<noteq> None) (obj_keys ob) = obj_keys ob"
    by (auto simp: filter_id_conv)
  then show ?thesis
    using some by (fastforce simp: obj_entries_def List.map_filter_def)
qed

lemma map_fst_obj_entries: "map fst (obj_entries ob) = obj_keys ob"
  by (simp add: obj_entries_eq comp_def)


subsection \<open>Doubles\<close>

lemma int_power_eq: "0 \<le> e \<Longrightarrow> int_power b e = b ^ nat e"
proof (induction b e rule: int_power.induct)
  case (1 b e)
  show ?case
  proof (cases "e \<le> 0")
    case True
    then show ?thesis using 1(3) by (subst int_power.simps) simp
  next
    case False
    then have pos: "0 < e" by simp
    have half: "int_power (b * b) (e div 2) = (b * b) ^ nat (e div 2)"
    proof (cases "e mod 2 = 0")
      case True
      then show ?thesis using 1(1) [OF False True] pos by simp
    next
      case odd: False
      then show ?thesis using 1(2) [OF False odd] pos by simp
    qed
    have sq: "(b * b) ^ nat (e div 2) = b ^ (2 * nat (e div 2))"
      by (simp add: power_mult power2_eq_square)
    show ?thesis
    proof (cases "e mod 2 = 0")
      case True
      then have "e = 2 * (e div 2)" by auto
      then have "nat e = nat (2 * (e div 2))" by simp
      then have "nat e = 2 * nat (e div 2)" by (simp add: nat_mult_distrib)
      then show ?thesis
        using False True half sq by (subst int_power.simps) simp
    next
      case odd: False
      then have "e = 2 * (e div 2) + 1" by presburger
      then have "nat e = nat (2 * (e div 2) + 1)" by simp
      moreover have "0 \<le> e div 2" using pos by simp
      ultimately have "nat e = Suc (2 * nat (e div 2))"
        by (simp add: nat_add_distrib nat_mult_distrib)
      then show ?thesis
        using False odd half sq by (subst int_power.simps) simp
    qed
  qed
qed

lemma bit_length_one: "bit_length 1 = 1"
  by code_simp

lemma bit_length_bounds:
  "0 < n \<Longrightarrow> 1 \<le> bit_length n \<and> 2 ^ nat (bit_length n - 1) \<le> n \<and> n < 2 ^ nat (bit_length n)"
proof (induction n rule: bit_length.induct)
  case (1 n)
  show ?case
  proof (cases "n = 1")
    case True
    then show ?thesis by (simp add: bit_length_one)
  next
    case False
    then have h: "0 < n div 2" using 1(2) by simp
    have ih: "1 \<le> bit_length (n div 2) \<and> 2 ^ nat (bit_length (n div 2) - 1) \<le> n div 2
               \<and> n div 2 < 2 ^ nat (bit_length (n div 2))"
      using 1(1) h 1(2) by simp
    have bl: "bit_length n = 1 + bit_length (n div 2)"
      using 1(2) by (subst bit_length.simps) simp
    define b where "b = bit_length (n div 2)"
    have b1: "1 \<le> b" and lo: "2 ^ nat (b - 1) \<le> n div 2" and hi: "n div 2 < 2 ^ nat b"
      using ih by (simp_all add: b_def)
    have e1: "nat (1 + b - 1) = Suc (nat (b - 1))" using b1 by simp
    have e2: "nat (1 + b) = Suc (nat b)" using b1 by simp
    have "2 * 2 ^ nat (b - 1) \<le> n" using lo by linarith
    moreover have "n < 2 * 2 ^ nat b" using hi by linarith
    ultimately show ?thesis
      using b1 unfolding bl b_def [symmetric] e1 e2 by simp
  qed
qed

lemma round_half_even_one: "round_half_even m 1 = m"
  by (simp add: round_half_even_def)

lemma nearest_double_safe:
  assumes "0 \<le> n" "n < 9007199254740992"
  shows "nearest_double neg n 1 = JNum (of_int (if neg then - n else n))"
proof (cases "n = 0")
  case True
  then show ?thesis by (simp add: nearest_double_def)
next
  case False
  then have pos: "0 < n" using assms(1) by simp
  define b where "b = bit_length n"
  have b1: "1 \<le> b" and lo: "2 ^ nat (b - 1) \<le> n" and hi: "n < 2 ^ nat b"
    using bit_length_bounds [OF pos] by (simp_all add: b_def)
  have "(2::int) ^ nat (b - 1) < 2 ^ 53"
    using lo assms(2) by simp
  then have "nat (b - 1) < 53"
    by (simp only: power_strict_increasing_iff [of "2::int"]) 
  then have b53: "b \<le> 53" by simp
  have fl: "floor_log2 n 1 = b - 1"
    using b1 lo by (simp add: floor_log2_def bit_length_one b_def [symmetric] int_power_eq)
  have u: "max (floor_log2 n 1 - 52) (- 1074) = b - 53"
    using b1 by (simp add: fl)
  show ?thesis
  proof (cases "b = 53")
    case True
    have "int_power 2 1024 = 2 ^ 1024" by (simp add: int_power_eq)
    moreover have "n < 2 ^ 1024" using assms(2) by simp
    ultimately have no: "\<not> int_power 2 1024 \<le> n" by simp
    have z: "int_power 2 0 = 1" by (simp add: int_power_eq)
    show ?thesis
      using False no by (simp add: nearest_double_def u True z round_half_even_one)
  next
    case neq: False
    then have neg_u: "\<not> 0 \<le> b - 53" using b53 by simp
    have nz: "(of_int (int_power 2 (53 - b)) :: rat) \<noteq> 0"
      using b53 by (simp add: int_power_eq)
    show ?thesis
      using False neg_u nz
      by (simp add: nearest_double_def u Let_def round_half_even_one)
  qed
qed

lemma decimal_double_safe:
  assumes "0 \<le> n" "n < 9007199254740992"
  shows "decimal_double neg n 0 = JNum (of_int (if neg then - n else n))"
  using nearest_double_safe [OF assms] by (simp add: decimal_double_def int_power_eq)

subsection \<open>Counting\<close>

lemma obj_get_Nil: "obj_get [] k = None"
  by (simp add: obj_get_def)

lemma obj_set_twice: "obj_set k v (obj_set k w ob) = obj_set k v ob"
  by (induction ob) auto

lemma obj_set_not_Nil: "obj_set k v ob \<noteq> []"
  by (cases ob) auto

lemma list_all_obj_set: "list_all P ob \<Longrightarrow> P (k, v) \<Longrightarrow> list_all P (obj_set k v ob)"
  using set_obj_set_subset [of k v ob] by (auto simp: list_all_iff)

lemma obj_get_increment:
  "obj_get (increment s k agg) s' =
     (if s' = s
      then Some (obj_set k (bucket agg s k + 1) (case obj_get agg s of Some c \<Rightarrow> c | None \<Rightarrow> []))
      else obj_get agg s')"
  by (auto simp: increment_def Let_def obj_get_obj_set obj_get_Nil bucket_def split: option.splits)

lemma bucket_increment:
  "bucket (increment s k agg) s' k' = bucket agg s' k' + (if s' = s \<and> k' = k then 1 else 0)"
  by (auto simp: bucket_def obj_get_increment obj_get_obj_set obj_get_Nil split: option.splits)

lemma bucket_fold_increment:
  "bucket (fold (\<lambda>p. increment (fst p) (snd p)) xs agg) s k = bucket agg s k + count_list xs (s, k)"
  by (induction xs arbitrary: agg) (auto simp: bucket_increment)

lemma wf_counts_obj_set: "counts = [] \<or> wf_counts counts \<Longrightarrow> wf_counts (obj_set k (Suc n) counts)"
  by (auto simp: wf_counts_def obj_set_not_Nil distinct_obj_set intro!: list_all_obj_set)

lemma wf_agg_lookup: "wf_agg agg \<Longrightarrow> obj_get agg s = Some counts \<Longrightarrow> wf_counts counts"
  by (auto simp: wf_agg_def obj_get_def list_all_iff dest!: map_of_SomeD)

lemma wf_agg_obj_set: "wf_agg agg \<Longrightarrow> wf_counts counts \<Longrightarrow> wf_agg (obj_set s counts agg)"
  by (auto simp: wf_agg_def distinct_obj_set intro!: list_all_obj_set)

lemma wf_agg_increment: "wf_agg agg \<Longrightarrow> wf_agg (increment s k agg)"
proof -
  assume wf: "wf_agg agg"
  show ?thesis
  proof (cases "obj_get agg s")
    case None
    then show ?thesis
      using wf wf_counts_obj_set [of "[]" k 0]
      by (simp add: increment_def obj_get_obj_set obj_get_Nil obj_set_twice wf_agg_obj_set wf_counts_def)
  next
    case (Some counts)
    then have "wf_counts counts" using wf by (rule wf_agg_lookup [rotated])
    then show ?thesis
      using wf Some by (simp add: increment_def Let_def wf_agg_obj_set wf_counts_obj_set)
  qed
qed

lemma wf_agg_fold_increment:
  "wf_agg agg \<Longrightarrow> wf_agg (fold (\<lambda>p. increment (fst p) (snd p)) xs agg)"
  by (induction xs arbitrary: agg) (auto simp: wf_agg_increment)

lemma wf_agg_Nil: "wf_agg []"
  by (simp add: wf_agg_def)

lemma fold_aggregate_prop:
  "fold aggregate_prop ps agg =
     fold (\<lambda>p. increment (fst p) (snd p))
       (map (\<lambda>p. (slug p, valueKey (val p))) (filter (\<lambda>p. val p \<noteq> VNull) ps)) agg"
  by (induction ps arbitrary: agg) (auto simp: aggregate_prop_def)

lemma fold_entities:
  "fold (\<lambda>e. fold aggregate_prop (properties e)) es agg =
     fold (\<lambda>p. increment (fst p) (snd p)) (occurrences es) agg"
  by (induction es arbitrary: agg) (auto simp: occurrences_def fold_aggregate_prop)

lemma aggregateData_occurrences:
  "aggregateData es = fold (\<lambda>p. increment (fst p) (snd p)) (occurrences es) []"
  by (simp add: aggregateData_def fold_entities)

lemma wf_agg_aggregateData: "wf_agg (aggregateData es)"
  by (simp add: aggregateData_occurrences wf_agg_fold_increment wf_agg_Nil)

lemma bucket_aggregateData: "bucket (aggregateData es) s k = count_list (occurrences es) (s, k)"
  by (simp add: aggregateData_occurrences bucket_fold_increment) (simp add: bucket_def obj_get_Nil)

lemma wf_counts_lookup: "wf_counts counts \<Longrightarrow> obj_get counts k = Some n \<Longrightarrow> 0 < n"
  by (auto simp: wf_counts_def obj_get_def list_all_iff dest!: map_of_SomeD)

lemma wf_agg_counts_eq:
  assumes "wf_agg agg" "obj_get agg s = Some counts"
  shows "obj_get counts k = (if bucket agg s k = 0 then None else Some (bucket agg s k))"
  using assms wf_counts_lookup [OF wf_agg_lookup [OF assms]]
  by (cases "obj_get counts k") (auto simp: bucket_def)

lemma wf_agg_absent_iff:
  assumes "wf_agg agg"
  shows "obj_get agg s = None \<longleftrightarrow> (\<forall>k. bucket agg s k = 0)"
proof
  assume "obj_get agg s = None"
  then show "\<forall>k. bucket agg s k = 0" by (simp add: bucket_def)
next
  assume zero: "\<forall>k. bucket agg s k = 0"
  show "obj_get agg s = None"
  proof (cases "obj_get agg s")
    case None
    then show ?thesis .
  next
    case (Some counts)
    then have wf: "wf_counts counts" using assms by (rule wf_agg_lookup [rotated])
    then obtain k n where "(k, n) \<in> set counts" by (cases counts) (auto simp: wf_counts_def)
    then have "obj_get counts k = Some n" using wf by (simp add: wf_counts_def obj_get_def)
    then have "bucket agg s k = n" "0 < n"
      using Some wf by (auto simp: bucket_def dest: wf_counts_lookup)
    then show ?thesis using zero by simp
  qed
qed

lemma wf_agg_determined:
  assumes "wf_agg a" "wf_agg b" "\<And>k. bucket a s k = bucket b s k"
  shows "map_option map_of (obj_get a s) = map_option map_of (obj_get b s)"
proof (cases "obj_get a s")
  case None
  then have "obj_get b s = None"
    using assms wf_agg_absent_iff [of a s] wf_agg_absent_iff [of b s] by simp
  then show ?thesis using None by simp
next
  case (Some ca)
  then have "obj_get b s \<noteq> None"
    using assms wf_agg_absent_iff [of a s] wf_agg_absent_iff [of b s] by auto
  then obtain cb where cb: "obj_get b s = Some cb" by auto
  have "map_of ca k = map_of cb k" for k
    using wf_agg_counts_eq [OF assms(1) Some, of k] wf_agg_counts_eq [OF assms(2) cb, of k] assms(3)
    by (simp add: obj_get_def)
  then show ?thesis using Some cb by auto
qed

subsection \<open>The order of the entities\<close>

lemma mset_occurrences:
  "mset (occurrences es) =
     sum_mset (image_mset (\<lambda>e. mset (map (\<lambda>p. (slug p, valueKey (val p)))
                                        (filter (\<lambda>p. val p \<noteq> VNull) (properties e)))) (mset es))"
proof -
  have "mset (occurrences es) =
        sum_list (map (\<lambda>e. mset (map (\<lambda>p. (slug p, valueKey (val p)))
                                        (filter (\<lambda>p. val p \<noteq> VNull) (properties e)))) es)"
    by (simp add: occurrences_def mset_concat comp_def)
  also have "\<dots> = sum_mset (mset (map (\<lambda>e. mset (map (\<lambda>p. (slug p, valueKey (val p)))
                                        (filter (\<lambda>p. val p \<noteq> VNull) (properties e)))) es))"
    by (rule sum_mset_sum_list [symmetric])
  finally show ?thesis by simp
qed

lemma mset_occurrences_cong: "mset es' = mset es \<Longrightarrow> mset (occurrences es') = mset (occurrences es)"
  by (simp add: mset_occurrences)

lemma mset_filterData: "mset es' = mset es \<Longrightarrow> mset (filterData es' M P) = mset (filterData es M P)"
  by (simp add: filterData_def)

lemma bucket_permutation:
  assumes "mset es' = mset es"
  shows "bucket (aggregateData (filterData es' M P)) s k = bucket (aggregateData (filterData es M P)) s k"
proof -
  have "mset (occurrences (filterData es' M P)) = mset (occurrences (filterData es M P))"
    using assms by (intro mset_occurrences_cong mset_filterData)
  then have "count (mset (occurrences (filterData es' M P))) (s, k)
           = count (mset (occurrences (filterData es M P))) (s, k)"
    by simp
  then show ?thesis by (simp add: bucket_aggregateData count_mset)
qed

text \<open>
  On plain data, aggregating the filtered entities gives the same mapping from slug to
  per-value counts for every permutation of the entity list: a slug is present for both
  or for neither, its counts agree as maps from value key to count, and so each bucket
  holds the same count.
\<close>

lemma aggregateData_permutation:
  assumes "mset es' = mset es" "plain_data es"
  shows "map_option map_of (obj_get (aggregateData (filterData es' M P)) s)
           = map_option map_of (obj_get (aggregateData (filterData es M P)) s)
         \<and> bucket (aggregateData (filterData es' M P)) s k
           = bucket (aggregateData (filterData es M P)) s k"
  using assms(1) wf_agg_determined [OF wf_agg_aggregateData wf_agg_aggregateData, of _ s]
    bucket_permutation [OF assms(1)]
  by blast

subsection \<open>The entity filter\<close>

lemma find_slug_distinct:
  "distinct (map slug ps) \<Longrightarrow> find (\<lambda>p. slug p = k) ps = Some q \<longleftrightarrow> q \<in> set ps \<and> slug q = k"
proof (induction ps)
  case Nil
  then show ?case by simp
next
  case (Cons a ps)
  from Cons.prems have "slug a \<notin> slug ` set ps"
    by simp
  then have notin: "\<forall>p \<in> set ps. slug p \<noteq> slug a"
    by (metis imageI)
  from Cons have IH: "find (\<lambda>p. slug p = k) ps = Some q \<longleftrightarrow> q \<in> set ps \<and> slug q = k"
    by simp
  show ?case
  proof (cases "slug a = k")
    case True
    then show ?thesis using notin by auto
  next
    case False
    then show ?thesis using IH by auto
  qed
qed

lemma modelMatch_iff:
  "modelMatch M e \<longleftrightarrow> M = None \<or> M = Some [] \<or> (\<exists>ms. M = Some ms \<and> model e \<in> set ms)"
  by (cases M) (auto simp: modelMatch_def)

lemma includes_val_iff: "includes_val vs v \<longleftrightarrow> (\<exists>a \<in> set vs. same_value_zero a v)"
  by (simp add: includes_val_def list_ex_iff)

lemma key_match_iff:
  assumes "distinct (map slug (properties e))" "obj_get P key = Some vs"
  shows "key_match P e key \<longleftrightarrow>
           (\<exists>p \<in> set (properties e). slug p = key \<and> val p \<noteq> VNull \<and> (\<exists>a \<in> set vs. same_value_zero a (val p)))"
proof (cases "find (\<lambda>p. slug p = key) (properties e)")
  case None
  then have "\<forall>p \<in> set (properties e). slug p \<noteq> key"
    by (simp add: find_None_iff)
  moreover have "\<not> key_match P e key"
    using assms(2) None by (simp add: key_match_def)
  ultimately show ?thesis by blast
next
  case (Some q)
  then have q: "q \<in> set (properties e)" "slug q = key"
    using find_slug_distinct [OF assms(1), of key q] by simp_all
  have uniq: "\<forall>p \<in> set (properties e). slug p = key \<longrightarrow> p = q"
  proof (intro ballI impI)
    fix p assume "p \<in> set (properties e)" "slug p = key"
    then have "find (\<lambda>p. slug p = key) (properties e) = Some p"
      using find_slug_distinct [OF assms(1), of key p] by simp
    then show "p = q" using Some by simp
  qed
  have lhs: "key_match P e key \<longleftrightarrow> val q \<noteq> VNull \<and> (\<exists>a \<in> set vs. same_value_zero a (val q))"
    using assms(2) Some by (simp add: key_match_def includes_val_iff)
  have rhs: "(\<exists>p \<in> set (properties e). slug p = key \<and> val p \<noteq> VNull \<and> (\<exists>a \<in> set vs. same_value_zero a (val p)))
             \<longleftrightarrow> val q \<noteq> VNull \<and> (\<exists>a \<in> set vs. same_value_zero a (val q))"
    using q uniq by blast
  show ?thesis unfolding lhs rhs ..
qed

lemma propertyMatch_iff:
  assumes "distinct (map slug (properties e))"
  shows "propertyMatch P e \<longleftrightarrow>
           (\<forall>key vs. obj_get P key = Some vs \<longrightarrow>
              (\<exists>p \<in> set (properties e). slug p = key \<and> val p \<noteq> VNull
                 \<and> (\<exists>a \<in> set vs. same_value_zero a (val p))))"
    (is "_ \<longleftrightarrow> (\<forall>key vs. _ \<longrightarrow> ?R key vs)")
proof
  assume pm: "propertyMatch P e"
  show "\<forall>key vs. obj_get P key = Some vs \<longrightarrow> ?R key vs"
  proof (intro allI impI)
    fix key vs assume get: "obj_get P key = Some vs"
    then have "key \<in> set (obj_keys P)"
      using obj_get_None_iff [of P key] by (simp add: set_obj_keys)
    then have "key_match P e key"
      using pm by (simp add: propertyMatch_def list_all_iff)
    then show "?R key vs"
      using key_match_iff [OF assms get] by simp
  qed
next
  assume all: "\<forall>key vs. obj_get P key = Some vs \<longrightarrow> ?R key vs"
  have "key_match P e key" if "key \<in> set (obj_keys P)" for key
  proof -
    from that obtain vs where get: "obj_get P key = Some vs"
      using obj_get_None_iff [of P key] by (cases "obj_get P key") (simp_all add: set_obj_keys)
    then have "?R key vs" using all by blast
    then show ?thesis using key_match_iff [OF assms get] by simp
  qed
  then show "propertyMatch P e"
    by (simp add: propertyMatch_def list_all_iff)
qed

lemma key_match_first:
  assumes "obj_get P key = Some vs"
  shows "key_match P e key \<longleftrightarrow>
           (\<exists>i < length (properties e). slug (properties e ! i) = key
               \<and> (\<forall>j < i. slug (properties e ! j) \<noteq> key)
               \<and> val (properties e ! i) \<noteq> VNull
               \<and> (\<exists>a \<in> set vs. same_value_zero a (val (properties e ! i))))"
proof (cases "find (\<lambda>p. slug p = key) (properties e)")
  case None
  then have "\<forall>p \<in> set (properties e). slug p \<noteq> key"
    by (simp add: find_None_iff)
  then have "\<forall>i < length (properties e). slug (properties e ! i) \<noteq> key"
    by simp
  moreover have "\<not> key_match P e key"
    using assms None by (simp add: key_match_def)
  ultimately show ?thesis by blast
next
  case (Some q)
  then obtain i where i: "i < length (properties e)" "slug (properties e ! i) = key"
      "q = properties e ! i" "\<forall>j < i. slug (properties e ! j) \<noteq> key"
    by (auto simp: find_Some_iff)
  have first: "i' = i"
    if "i' < length (properties e)" "slug (properties e ! i') = key"
       "\<forall>j < i'. slug (properties e ! j) \<noteq> key" for i'
    using that i by (cases i' i rule: linorder_cases) auto
  have lhs: "key_match P e key \<longleftrightarrow> val q \<noteq> VNull \<and> (\<exists>a \<in> set vs. same_value_zero a (val q))"
    using assms Some by (simp add: key_match_def includes_val_iff)
  show ?thesis
    unfolding lhs using i first by blast
qed

lemma propertyMatch_first:
  "propertyMatch P e \<longleftrightarrow>
     (\<forall>key vs. obj_get P key = Some vs \<longrightarrow>
        (\<exists>i < length (properties e). slug (properties e ! i) = key
            \<and> (\<forall>j < i. slug (properties e ! j) \<noteq> key)
            \<and> val (properties e ! i) \<noteq> VNull
            \<and> (\<exists>a \<in> set vs. same_value_zero a (val (properties e ! i)))))"
    (is "_ \<longleftrightarrow> (\<forall>key vs. _ \<longrightarrow> ?R key vs)")
proof
  assume pm: "propertyMatch P e"
  show "\<forall>key vs. obj_get P key = Some vs \<longrightarrow> ?R key vs"
  proof (intro allI impI)
    fix key vs assume get: "obj_get P key = Some vs"
    then have "key \<in> set (obj_keys P)"
      using obj_get_None_iff [of P key] by (simp add: set_obj_keys)
    then have "key_match P e key"
      using pm by (simp add: propertyMatch_def list_all_iff)
    then show "?R key vs"
      using key_match_first [OF get] by simp
  qed
next
  assume all: "\<forall>key vs. obj_get P key = Some vs \<longrightarrow> ?R key vs"
  have "key_match P e key" if "key \<in> set (obj_keys P)" for key
  proof -
    from that obtain vs where get: "obj_get P key = Some vs"
      using obj_get_None_iff [of P key] by (cases "obj_get P key") (simp_all add: set_obj_keys)
    then have "?R key vs" using all by blast
    then show ?thesis using key_match_first [OF get] by simp
  qed
  then show "propertyMatch P e"
    by (simp add: propertyMatch_def list_all_iff)
qed

text \<open>
  C2, as amended. The entity filter returns exactly the entities, in their original
  order, whose model passes the allow-list (absent, empty, or containing the model)
  and for which, for every key of the filter map, the first property with that slug
  exists, has a value that is not null, and has one of the key's acceptable values.
  When the slugs are unique within every entity, this is the predicate of the claim:
  some property with that slug has such a value.
\<close>

theorem filterData_first_match:
  "filterData data M P =
     filter (\<lambda>e. (M = None \<or> M = Some [] \<or> (\<exists>ms. M = Some ms \<and> model e \<in> set ms))
                \<and> (\<forall>key vs. obj_get P key = Some vs \<longrightarrow>
                      (\<exists>i < length (properties e). slug (properties e ! i) = key
                          \<and> (\<forall>j < i. slug (properties e ! j) \<noteq> key)
                          \<and> val (properties e ! i) \<noteq> VNull
                          \<and> (\<exists>a \<in> set vs. same_value_zero a (val (properties e ! i)))))) data
   \<and> ((\<forall>e \<in> set data. distinct (map slug (properties e))) \<longrightarrow>
        filterData data M P =
          filter (\<lambda>e. (M = None \<or> M = Some [] \<or> (\<exists>ms. M = Some ms \<and> model e \<in> set ms))
                     \<and> (\<forall>key vs. obj_get P key = Some vs \<longrightarrow>
                           (\<exists>p \<in> set (properties e). slug p = key \<and> val p \<noteq> VNull
                              \<and> (\<exists>a \<in> set vs. same_value_zero a (val p))))) data)"
proof (intro conjI impI)
  show "filterData data M P =
     filter (\<lambda>e. (M = None \<or> M = Some [] \<or> (\<exists>ms. M = Some ms \<and> model e \<in> set ms))
                \<and> (\<forall>key vs. obj_get P key = Some vs \<longrightarrow>
                      (\<exists>i < length (properties e). slug (properties e ! i) = key
                          \<and> (\<forall>j < i. slug (properties e ! j) \<noteq> key)
                          \<and> val (properties e ! i) \<noteq> VNull
                          \<and> (\<exists>a \<in> set vs. same_value_zero a (val (properties e ! i)))))) data"
    unfolding filterData_def
    by (intro filter_cong refl) (simp only: modelMatch_iff propertyMatch_first)
next
  assume slugs: "\<forall>e \<in> set data. distinct (map slug (properties e))"
  have "modelMatch M e \<and> propertyMatch P e \<longleftrightarrow>
          (M = None \<or> M = Some [] \<or> (\<exists>ms. M = Some ms \<and> model e \<in> set ms))
          \<and> (\<forall>key vs. obj_get P key = Some vs \<longrightarrow>
                (\<exists>p \<in> set (properties e). slug p = key \<and> val p \<noteq> VNull
                   \<and> (\<exists>a \<in> set vs. same_value_zero a (val p))))"
    if "e \<in> set data" for e
  proof -
    have "distinct (map slug (properties e))" using slugs that by blast
    then show ?thesis
      using modelMatch_iff [of M e] propertyMatch_iff [of e P] by blast
  qed
  then show "filterData data M P =
          filter (\<lambda>e. (M = None \<or> M = Some [] \<or> (\<exists>ms. M = Some ms \<and> model e \<in> set ms))
                     \<and> (\<forall>key vs. obj_get P key = Some vs \<longrightarrow>
                           (\<exists>p \<in> set (properties e). slug p = key \<and> val p \<noteq> VNull
                              \<and> (\<exists>a \<in> set vs. same_value_zero a (val p))))) data"
    unfolding filterData_def by (intro filter_cong refl)
qed

theorem filterData_first_match_witness:
  "list_all (\<lambda>e. distinct (map slug (properties e))) [vehicle_2008, vehicle_text_2008, person_brown]
   \<and> filterData [vehicle_2008, vehicle_text_2008, person_brown] (Some [''vehicle''])
         [(''year'', [JNum 2008])]
       = filter (\<lambda>e. (Some [''vehicle''] = None \<or> Some [''vehicle''] = Some []
                          \<or> (\<exists>ms. Some [''vehicle''] = Some ms \<and> model e \<in> set ms))
                      \<and> (\<forall>key vs. obj_get [(''year'', [JNum 2008])] key = Some vs \<longrightarrow>
                            (\<exists>p \<in> set (properties e). slug p = key \<and> val p \<noteq> VNull
                               \<and> (\<exists>a \<in> set vs. same_value_zero a (val p)))))
           [vehicle_2008, vehicle_text_2008, person_brown]
   \<and> filterData [vehicle_2008, vehicle_text_2008, person_brown] (Some [''vehicle''])
         [(''year'', [JNum 2008])] = [vehicle_2008]"
proof -
  have slugs: "\<forall>e \<in> set [vehicle_2008, vehicle_text_2008, person_brown]. distinct (map slug (properties e))"
    by (simp add: vehicle_2008_def vehicle_text_2008_def person_brown_def)
  have result: "filterData [vehicle_2008, vehicle_text_2008, person_brown] (Some [''vehicle''])
         [(''year'', [JNum 2008])] = [vehicle_2008]"
    by code_simp
  have hyp: "list_all (\<lambda>e. distinct (map slug (properties e))) [vehicle_2008, vehicle_text_2008, person_brown]"
    using slugs by (simp only: list_all_iff)
  note spec = filterData_first_match [of "[vehicle_2008, vehicle_text_2008, person_brown]"
      "Some [''vehicle'']" "[(''year'', [JNum 2008])]", THEN conjunct2, THEN mp, OF slugs]
  show ?thesis
    by (intro conjI) (rule hyp, rule spec, rule result)
qed

text \<open>
  The claim as stated fails for an entity that has two properties of one slug: the
  code consults the first of them only. Here the second \<^verbatim>\<open>year\<close> property holds the
  accepted number 2008, so the predicate of the claim keeps the entity, and the filter
  drops it, since the first \<^verbatim>\<open>year\<close> property holds a string.
\<close>

theorem filterData_first_match_counterexample:
  "filter (\<lambda>e. (None = None \<or> None = Some [] \<or> (\<exists>ms. None = Some ms \<and> model e \<in> set ms))
                \<and> (\<forall>key vs. obj_get [(''year'', [JNum 2008])] key = Some vs \<longrightarrow>
                      (\<exists>p \<in> set (properties e). slug p = key \<and> val p \<noteq> VNull
                         \<and> (\<exists>a \<in> set vs. same_value_zero a (val p))))) [two_years]
     = [two_years]
   \<and> filterData [two_years] None [(''year'', [JNum 2008])] = []"
proof
  have "\<forall>key vs. obj_get [(''year'', [JNum 2008])] key = Some vs \<longrightarrow>
          (\<exists>p \<in> set (properties two_years). slug p = key \<and> val p \<noteq> VNull
             \<and> (\<exists>a \<in> set vs. same_value_zero a (val p)))"
    by (auto simp: obj_get_def two_years_def split: if_splits)
  then show "filter (\<lambda>e. (None = None \<or> None = Some [] \<or> (\<exists>ms. None = Some ms \<and> model e \<in> set ms))
                \<and> (\<forall>key vs. obj_get [(''year'', [JNum 2008])] key = Some vs \<longrightarrow>
                      (\<exists>p \<in> set (properties e). slug p = key \<and> val p \<noteq> VNull
                         \<and> (\<exists>a \<in> set vs. same_value_zero a (val p))))) [two_years]
     = [two_years]"
    by simp
  show "filterData [two_years] None [(''year'', [JNum 2008])] = []"
    by code_simp
qed

lemma length_filter_mono: "(\<And>x. x \<in> set xs \<Longrightarrow> P x \<Longrightarrow> Q x) \<Longrightarrow> length (filter P xs) \<le> length (filter Q xs)"
  by (induction xs) auto

lemma modelMatch_add: "ms \<noteq> [] \<Longrightarrow> modelMatch (Some ms) e \<Longrightarrow> modelMatch (Some (ms @ [m])) e"
  by (auto simp: modelMatch_def)

lemma key_match_obj_set: "key \<noteq> k \<Longrightarrow> key_match (obj_set k vs P) e key = key_match P e key"
  by (simp add: key_match_def obj_get_obj_set)

lemma propertyMatch_add: "propertyMatch (obj_set k vs P) e \<Longrightarrow> obj_get P k = None \<Longrightarrow> propertyMatch P e"
proof -
  assume all: "propertyMatch (obj_set k vs P) e" and fresh: "obj_get P k = None"
  have "key_match P e key" if "key \<in> set (obj_keys P)" for key
  proof -
    have "key \<noteq> k" using that fresh by (auto simp: set_obj_keys obj_get_None_iff)
    moreover have "key \<in> set (obj_keys (obj_set k vs P))"
      using that by (simp add: set_obj_keys keys_obj_set)
    ultimately show ?thesis
      using all by (auto simp: propertyMatch_def list_all_iff key_match_obj_set)
  qed
  then show ?thesis by (simp add: propertyMatch_def list_all_iff)
qed

text \<open>
  C5, as amended. For a non-empty allow-list, adding one more model name never decreases
  the number of entities returned; adding a key that the filter map does not have yet
  never increases it.
\<close>

theorem filterData_monotone:
  "(ms \<noteq> [] \<longrightarrow> length (filterData data (Some ms) P) \<le> length (filterData data (Some (ms @ [m])) P))
   \<and> (obj_get P k = None \<longrightarrow> length (filterData data M (obj_set k vs P)) \<le> length (filterData data M P))"
proof (intro conjI impI)
  assume "ms \<noteq> []"
  then show "length (filterData data (Some ms) P) \<le> length (filterData data (Some (ms @ [m])) P)"
    unfolding filterData_def by (intro length_filter_mono) (simp add: modelMatch_add)
next
  assume "obj_get P k = None"
  then show "length (filterData data M (obj_set k vs P)) \<le> length (filterData data M P)"
    unfolding filterData_def using propertyMatch_add [of k vs P] by (intro length_filter_mono) simp
qed

theorem filterData_monotone_witness:
  "[''case''] \<noteq> []
   \<and> length (filterData [vehicle_2008, vehicle_text_2008, person_brown] (Some [''case'']) [])
       \<le> length (filterData [vehicle_2008, vehicle_text_2008, person_brown] (Some ([''case''] @ [''vehicle''])) [])
   \<and> obj_get [(''make'', [JStr ''toyota'', JStr ''honda''])] ''year'' = None
   \<and> length (filterData [vehicle_2008, vehicle_text_2008, person_brown] None
                (obj_set ''year'' [JNum 2008] [(''make'', [JStr ''toyota'', JStr ''honda''])]))
       \<le> length (filterData [vehicle_2008, vehicle_text_2008, person_brown] None
                [(''make'', [JStr ''toyota'', JStr ''honda''])])"
proof -
  have fresh: "obj_get [(''make'', [JStr ''toyota'', JStr ''honda''])] ''year'' = None"
    by (simp add: obj_get_def)
  show ?thesis
    using fresh
      filterData_monotone [where ms = "[''case'']" and m = "''vehicle''"
        and data = "[vehicle_2008, vehicle_text_2008, person_brown]" and P = "[]"]
      filterData_monotone [where k = "''year''" and vs = "[JNum 2008]" and M = None
        and data = "[vehicle_2008, vehicle_text_2008, person_brown]"
        and P = "[(''make'', [JStr ''toyota'', JStr ''honda''])]"]
    by simp
qed

text \<open>
  The claim as stated fails for the empty allow-list, which admits every model: adding
  \<^verbatim>\<open>person\<close> to it leaves no vehicle.
\<close>

theorem filterData_monotone_counterexample:
  "\<not> length (filterData [vehicle_2008] (Some []) [])
       \<le> length (filterData [vehicle_2008] (Some ([] @ [''person''])) [])"
  by code_simp

lemma year_filter_parsed: "parsePropertyFilters (Some [''year:2008'']) = [(''year'', [JNum 2008])]"
  by code_simp

lemma year_filter_match:
  "propertyMatch [(''year'', [JNum 2008])] e =
     (case find (\<lambda>p. slug p = ''year'') (properties e) of
        None \<Rightarrow> False
      | Some prop \<Rightarrow> val prop = VNum 2008)"
proof -
  have keys: "obj_keys [(''year'', [JNum 2008])] = [''year'']"
    by code_simp
  have svz: "same_value_zero (JNum 2008) v \<longleftrightarrow> v = VNum 2008" for v
    by (cases v) simp_all
  have pm: "propertyMatch [(''year'', [JNum 2008])] e = key_match [(''year'', [JNum 2008])] e ''year''"
    by (simp add: propertyMatch_def keys)
  show ?thesis
  proof (cases "find (\<lambda>p. slug p = ''year'') (properties e)")
    case None
    then show ?thesis by (simp add: pm key_match_def obj_get_def)
  next
    case (Some q)
    then show ?thesis
      by (cases "val q = VNull") (simp_all add: pm key_match_def obj_get_def includes_val_def svz)
  qed
qed

text \<open>
  C8. The filter \<^verbatim>\<open>year:2008\<close> is inferred as the number 2008; an entity whose
  \<^verbatim>\<open>year\<close> property holds the integer 2008 passes the property predicate, and one
  whose \<^verbatim>\<open>year\<close> property holds the string \<^verbatim>\<open>"2008"\<close> does not.
\<close>

theorem year_filter_strict:
  "parsePropertyFilters (Some [''year:2008'']) = [(''year'', [JNum 2008])]
   \<and> (find (\<lambda>p. slug p = ''year'') (properties e) = Some p \<and> val p = VNum 2008
        \<longrightarrow> propertyMatch (parsePropertyFilters (Some [''year:2008''])) e)
   \<and> (find (\<lambda>p. slug p = ''year'') (properties e) = Some p \<and> val p = VStr ''2008''
        \<longrightarrow> \<not> propertyMatch (parsePropertyFilters (Some [''year:2008''])) e)"
  by (simp add: year_filter_parsed year_filter_match)

theorem year_filter_strict_witness:
  "find (\<lambda>p. slug p = ''year'') (properties vehicle_2008)
       = Some \<lparr>slug = ''year'', ptype = ''integer'', val = VNum 2008\<rparr>
   \<and> propertyMatch (parsePropertyFilters (Some [''year:2008''])) vehicle_2008
   \<and> find (\<lambda>p. slug p = ''year'') (properties vehicle_text_2008)
       = Some \<lparr>slug = ''year'', ptype = ''string'', val = VStr ''2008''\<rparr>
   \<and> \<not> propertyMatch (parsePropertyFilters (Some [''year:2008''])) vehicle_text_2008"
proof -
  have a: "find (\<lambda>p. slug p = ''year'') (properties vehicle_2008)
       = Some \<lparr>slug = ''year'', ptype = ''integer'', val = VNum 2008\<rparr>"
    by (simp add: vehicle_2008_def)
  have b: "find (\<lambda>p. slug p = ''year'') (properties vehicle_text_2008)
       = Some \<lparr>slug = ''year'', ptype = ''string'', val = VStr ''2008''\<rparr>"
    by (simp add: vehicle_text_2008_def)
  have m1: "propertyMatch (parsePropertyFilters (Some [''year:2008''])) vehicle_2008"
    using a year_filter_strict [of vehicle_2008 "\<lparr>slug = ''year'', ptype = ''integer'', val = VNum 2008\<rparr>"]
    by (simp (no_asm_use)) blast
  have m2: "\<not> propertyMatch (parsePropertyFilters (Some [''year:2008''])) vehicle_text_2008"
    using b year_filter_strict [of vehicle_text_2008 "\<lparr>slug = ''year'', ptype = ''string'', val = VStr ''2008''\<rparr>"]
    by (simp (no_asm_use)) blast
  show ?thesis
    by (intro conjI) (rule a, rule m1, rule b, rule m2)
qed

subsection \<open>The filter specification parser\<close>

lemma parse_filter_entry:
  "parse_filter f m = (case entry_of f of None \<Rightarrow> m | Some (key, vs) \<Rightarrow> obj_set key vs m)"
  by (simp add: parse_filter_def entry_of_def split: list.splits)

lemma obj_get_fold_parse_filter:
  "obj_get (fold parse_filter fs m) k =
     (case filter (\<lambda>e. fst e = k) (List.map_filter entry_of fs) of
        [] \<Rightarrow> obj_get m k
      | e # es \<Rightarrow> Some (snd (last (e # es))))"
proof (induction fs arbitrary: m)
  case Nil
  then show ?case by (simp add: List.map_filter_simps)
next
  case (Cons f fs)
  show ?case
  proof (cases "entry_of f")
    case None
    then show ?thesis
      using Cons.IH [of m] by (simp add: parse_filter_entry List.map_filter_simps)
  next
    case (Some kv)
    obtain k' vs where kv: "kv = (k', vs)" by (cases kv)
    have step: "parse_filter f m = obj_set k' vs m"
      using Some kv by (simp add: parse_filter_entry)
    show ?thesis
      using Cons.IH [of "obj_set k' vs m"] Some kv
      by (simp add: step List.map_filter_simps obj_get_obj_set split: list.splits)
  qed
qed

text \<open>
  C10. The filter map binds a key to the value list of the last well-formed entry that
  has this key, and to nothing when there is none: a later entry overwrites an earlier
  one, and value lists of different entries are never merged.
\<close>

theorem parsePropertyFilters_last_wins:
  "obj_get (parsePropertyFilters (Some fs)) k =
     (case filter (\<lambda>e. fst e = k) (List.map_filter entry_of fs) of
        [] \<Rightarrow> None
      | e # es \<Rightarrow> Some (snd (last (e # es))))"
  by (simp add: parsePropertyFilters_def obj_get_fold_parse_filter obj_get_Nil split: list.splits)

theorem parsePropertyFilters_last_wins_witness:
  "obj_get (parsePropertyFilters (Some [''year:2008'', ''make:toyota'', ''year:1999,2000''])) ''year''
     = Some [JNum 1999, JNum 2000]"
proof -
  have "(case filter (\<lambda>e. fst e = ''year'')
               (List.map_filter entry_of [''year:2008'', ''make:toyota'', ''year:1999,2000'']) of
           [] \<Rightarrow> None
         | e # es \<Rightarrow> Some (snd (last (e # es)))) = Some [JNum 1999, JNum 2000]"
    by code_simp
  then show ?thesis
    using parsePropertyFilters_last_wins [of "[''year:2008'', ''make:toyota'', ''year:1999,2000'']" "''year''"]
    by simp
qed

lemma split_on_no_sep: "sep \<notin> set s \<Longrightarrow> split_on sep s = [s]"
  by (induction s) auto

lemma split_on_first_sep: "sep \<notin> set a \<Longrightarrow> split_on sep (a @ sep # b) = a # split_on sep b"
  by (induction a) auto

lemma takeWhile_first_sep: "sep \<notin> set a \<Longrightarrow> takeWhile (\<lambda>c. c \<noteq> sep) (a @ sep # b) = a"
  by (induction a) auto

lemma dropWhile_first_sep: "sep \<notin> set a \<Longrightarrow> dropWhile (\<lambda>c. c \<noteq> sep) (a @ sep # b) = sep # b"
  by (induction a) auto

text \<open>
  On an entry with at most one \<^verbatim>\<open>:\<close> the code takes what the specification says.
\<close>

lemma entry_of_one_colon:
  assumes "count_list f (CHR '':'') \<le> 1"
  shows "entry_of f = entry_spec f"
proof (cases "CHR '':'' \<in> set f")
  case False
  then show ?thesis
    by (simp add: entry_of_def entry_spec_def split_first_def split_on_no_sep)
next
  case True
  then obtain a b where f: "f = a @ CHR '':'' # b" and a: "CHR '':'' \<notin> set a"
    by (meson split_list_first)
  have "count_list b (CHR '':'') = 0"
    using assms by (simp add: f)
  then have b: "CHR '':'' \<notin> set b"
    by (simp add: count_list_0_iff)
  have tw: "takeWhile (\<lambda>c. c \<noteq> CHR '':'') f = a"
    using a by (simp add: f takeWhile_first_sep)
  have dw: "dropWhile (\<lambda>c. c \<noteq> CHR '':'') f = CHR '':'' # b"
    using a by (simp add: f dropWhile_first_sep)
  show ?thesis
    using a b True
    by (simp add: entry_of_def entry_spec_def split_first_def tw dw)
       (simp add: f split_on_first_sep split_on_no_sep)
qed

text \<open>
  C3 fails on the code. \<^verbatim>\<open>filter.split(":")\<close> cuts at every \<^verbatim>\<open>:\<close> and the
  destructuring keeps the first two pieces, so what follows a second \<^verbatim>\<open>:\<close> is dropped:
  the entry \<^verbatim>\<open>time:12:30\<close> gives the value list \<^verbatim>\<open>[12]\<close>, where a split on the first
  \<^verbatim>\<open>:\<close> gives \<^verbatim>\<open>["12:30"]\<close>.
\<close>

theorem parsePropertyFilters_second_colon:
  "parsePropertyFilters (Some [''time:12:30'']) = [(''time'', [JNum 12])]
   \<and> parsePropertyFilters_spec [''time:12:30''] = [(''time'', [JStr ''12:30''])]"
  by code_simp

subsection \<open>Digits\<close>

lemma digit_val_digit_char: "k < 10 \<Longrightarrow> digit_val (digit_char k) = k"
  by (simp add: digit_val_def digit_char_def)

lemma int_of_digits_snoc: "int_of_digits (xs @ [c]) = 10 * int_of_digits xs + int (digit_val c)"
  by (simp add: int_of_digits_def)

lemma int_of_digits_digits_of: "0 \<le> n \<Longrightarrow> int_of_digits (digits_of n) = n"
proof (induction n rule: digits_of.induct)
  case (1 n)
  show ?case
  proof (cases "n < 10")
    case True
    then show ?thesis
      using 1(2) by (subst digits_of.simps) (simp add: int_of_digits_def digit_val_digit_char)
  next
    case False
    then have "int_of_digits (digits_of (n div 10)) = n div 10"
      using 1 by simp
    moreover have "nat (n mod 10) < 10"
      by simp
    ultimately show ?thesis
      using False by (subst digits_of.simps) (simp add: int_of_digits_snoc digit_val_digit_char)
  qed
qed

subsection \<open>Reading decimal digits\<close>

lemma digits_of_digits: "0 \<le> n \<Longrightarrow> digits_of n \<noteq> [] \<and> list_all is_digit (digits_of n)"
proof (induction n rule: digits_of.induct)
  case (1 n)
  have d: "is_digit (digit_char k)" if "k < 10" for k
    using that by (simp add: is_digit_def digit_char_def)
  show ?case
  proof (cases "n < 10")
    case True
    then show ?thesis
      using 1(2) by (subst (1 2) digits_of.simps) (simp add: d)
  next
    case False
    then have "digits_of (n div 10) \<noteq> [] \<and> list_all is_digit (digits_of (n div 10))"
      using 1 by simp
    moreover have "nat (n mod 10) < 10" by simp
    ultimately show ?thesis
      using False by (subst (1 2) digits_of.simps) (simp add: d)
  qed
qed

lemma digit_char_zero: "k < 10 \<Longrightarrow> digit_char k = CHR ''0'' \<longleftrightarrow> k = 0"
proof -
  assume k: "k < 10"
  have z: "digit_char 0 = CHR ''0''"
    by code_simp
  have "digit_val (digit_char k) = k"
    using k by (rule digit_val_digit_char)
  moreover have "digit_val (CHR ''0'') = 0"
    by (simp add: digit_val_def)
  ultimately show ?thesis
    using z by auto
qed

lemma digits_of_no_leading_zero: "10 \<le> n \<Longrightarrow> hd (digits_of n) \<noteq> CHR ''0''"
proof (induction n rule: digits_of.induct)
  case (1 n)
  show ?case
  proof (cases "n div 10 < 10")
    case True
    have pos: "0 < n div 10" using 1(2) by simp
    have "digits_of (n div 10) = [digit_char (nat (n div 10))]"
      using True by (subst digits_of.simps) simp
    moreover have "digit_char (nat (n div 10)) \<noteq> CHR ''0''"
      using True pos digit_char_zero [of "nat (n div 10)"] by simp
    ultimately show ?thesis
      using 1(2) by (subst digits_of.simps) simp
  next
    case False
    then have "hd (digits_of (n div 10)) \<noteq> CHR ''0''"
      using 1 by simp
    moreover have "digits_of (n div 10) \<noteq> []"
      using digits_of_digits [of "n div 10"] False by simp
    ultimately show ?thesis
      using 1(2) by (subst digits_of.simps) simp
  qed
qed

lemma lex_num_run:
  "list_all is_num_char s \<Longrightarrow> lex (LNum acc) s = emit (num_token (rev s @ acc)) (Some [])"
  by (induction s arbitrary: acc) simp_all

lemma digit_is_plain:
  assumes "is_digit c"
  shows "is_num_char c \<and> \<not> is_ws c \<and> punct c = None \<and> c \<noteq> CHR 0x22 \<and> c \<noteq> CHR ''-''"
proof -
  have r: "48 \<le> (of_char c :: nat)" "(of_char c :: nat) \<le> 57"
    using assms by (simp_all add: is_digit_def)
  have ne: "c \<noteq> d" if "(of_char d :: nat) < 48 \<or> 57 < (of_char d :: nat)" for d
    using r that by auto
  have ws: "c \<noteq> CHR 0x20" "c \<noteq> CHR 0x09" "c \<noteq> CHR 0x0A" "c \<noteq> CHR 0x0D"
    by (rule ne, simp)+
  have pn: "c \<noteq> CHR ''[''" "c \<noteq> CHR '']''" "c \<noteq> CHR ''{''" "c \<noteq> CHR ''}''"
    "c \<noteq> CHR '',''" "c \<noteq> CHR '':''"
    by (rule ne, simp)+
  have ot: "c \<noteq> CHR 0x22" "c \<noteq> CHR ''-''"
    by (rule ne, simp)+
  show ?thesis
    using assms by (simp add: is_num_char_def is_ws_def punct_def ws pn ot)
qed

lemma int_of_digits_nonneg: "0 \<le> int_of_digits ds"
proof -
  have "0 \<le> a \<Longrightarrow> 0 \<le> foldl (\<lambda>a c. 10 * a + int (digit_val c)) a ds" for a
    by (induction ds arbitrary: a) simp_all
  then show ?thesis by (simp add: int_of_digits_def)
qed

lemma number_of_text_digits:
  assumes "ds \<noteq> []" "list_all is_digit ds" "1 < length ds \<longrightarrow> hd ds \<noteq> CHR ''0''"
  shows "number_of_text ds = Some (decimal_double False (int_of_digits ds) 0)"
    and "number_of_text (CHR ''-'' # ds) = Some (decimal_double True (int_of_digits ds) 0)"
proof -
  have all: "\<forall>c \<in> set ds. is_digit c"
    using assms(2) by (simp add: list_all_iff)
  then have tw: "takeWhile is_digit ds = ds" and dw: "dropWhile is_digit ds = []"
    by simp_all
  have "is_digit (hd ds)"
    using assms(1) all by simp
  then have hd: "hd ds \<noteq> CHR ''-''"
    using digit_is_plain [of "hd ds"] by simp
  have nofrac: "\<not> (\<exists>x \<in> set ds. \<not> is_digit x)"
    using all by blast
  have lead: "\<not> (Suc 0 < length ds \<and> hd ds = CHR ''0'')"
    using assms(3) by simp
  show "number_of_text ds = Some (decimal_double False (int_of_digits ds) 0)"
    using assms(1) hd
    by (simp add: number_of_text_def Let_def tw dw nofrac lead exponent_of_text_def)
  show "number_of_text (CHR ''-'' # ds) = Some (decimal_double True (int_of_digits ds) 0)"
    using assms(1)
    by (simp add: number_of_text_def Let_def tw dw nofrac lead exponent_of_text_def)
qed

lemma JSON_parse_digits:
  assumes "ds \<noteq> []" "list_all is_digit ds" "1 < length ds \<longrightarrow> hd ds \<noteq> CHR ''0''"
    and "int_of_digits ds < 9007199254740992"
  shows "JSON_parse ds = Some (JNum (of_int (int_of_digits ds)))"
    and "JSON_parse (CHR ''-'' # ds) = Some (JNum (- of_int (int_of_digits ds)))"
proof -
  from assms(1) obtain c cs where ds: "ds = c # cs" by (cases ds) auto
  have c: "is_digit c" and cs: "list_all is_num_char cs" and all: "list_all is_num_char ds"
    using assms(2) digit_is_plain by (auto simp: ds list_all_iff)
  have minus: "is_num_char (CHR ''-'') \<and> \<not> is_ws (CHR ''-'') \<and> punct (CHR ''-'') = None"
    by (simp add: is_num_char_def is_ws_def punct_def)
  note dd = decimal_double_safe [OF int_of_digits_nonneg assms(4)]
  have "lex LIdle ds = emit (num_token (rev ds)) (Some [])"
    using digit_is_plain [OF c] lex_num_run [OF cs, of "[c]"] by (simp add: ds)
  then show "JSON_parse ds = Some (JNum (of_int (int_of_digits ds)))"
    using number_of_text_digits(1) [OF assms(1,2,3)] dd [of False]
    by (simp add: JSON_parse_def num_token_def)
  have "lex LIdle (CHR ''-'' # ds) = emit (num_token (rev (CHR ''-'' # ds))) (Some [])"
    using minus lex_num_run [OF all, of "[CHR ''-'']"] by simp
  then show "JSON_parse (CHR ''-'' # ds) = Some (JNum (- of_int (int_of_digits ds)))"
    using number_of_text_digits(2) [OF assms(1,2,3)] dd [of True]
    by (simp add: JSON_parse_def num_token_def)
qed

lemma digits_of_canonical:
  assumes "0 \<le> n"
  shows "digits_of n \<noteq> []" "list_all is_digit (digits_of n)"
    "length (digits_of n) = 1 \<or> hd (digits_of n) \<noteq> CHR ''0''"
proof -
  show "digits_of n \<noteq> []" "list_all is_digit (digits_of n)"
    using digits_of_digits [OF assms] by simp_all
  show "length (digits_of n) = 1 \<or> hd (digits_of n) \<noteq> CHR ''0''"
  proof (cases "n < 10")
    case True
    then have "digits_of n = [digit_char (nat n)]"
      by (subst digits_of.simps) simp
    then show ?thesis by simp
  next
    case False
    then show ?thesis using digits_of_no_leading_zero [of n] by simp
  qed
qed

lemma JSON_parse_digits_of:
  assumes "0 \<le> n" "n < 9007199254740992"
  shows "JSON_parse (digits_of n) = Some (JNum (of_int n))"
    and "JSON_parse (CHR ''-'' # digits_of n) = Some (JNum (- of_int n))"
proof -
  note c = digits_of_canonical [OF assms(1)]
  have lead: "1 < length (digits_of n) \<longrightarrow> hd (digits_of n) \<noteq> CHR ''0''"
    using c(3) by auto
  have small: "int_of_digits (digits_of n) < 9007199254740992"
    using assms by (simp add: int_of_digits_digits_of)
  show "JSON_parse (digits_of n) = Some (JNum (of_int n))"
    using JSON_parse_digits(1) [OF c(1,2) lead small] assms(1) by (simp add: int_of_digits_digits_of)
  show "JSON_parse (CHR ''-'' # digits_of n) = Some (JNum (- of_int n))"
    using JSON_parse_digits(2) [OF c(1,2) lead small] assms(1) by (simp add: int_of_digits_digits_of)
qed

lemma JSON_parse_number_to_string:
  assumes "safe_integer n"
  shows "JSON_parse (number_to_string n) = Some (JNum (of_int n))"
proof (cases "n < 0")
  case True
  then have "0 \<le> - n" "- n < 9007199254740992" using assms by (simp_all add: safe_integer_def)
  from JSON_parse_digits_of(2) [OF this] show ?thesis
    using True by (simp add: number_to_string_def)
next
  case False
  then have "0 \<le> n" "n < 9007199254740992" using assms by (simp_all add: safe_integer_def)
  from JSON_parse_digits_of(1) [OF this] show ?thesis
    using False by (simp add: number_to_string_def)
qed


text \<open>
  The decimal text of an integer is unique, and it is what \<open>number_to_string\<close> gives.
\<close>

lemma digit_char_digit_val: "is_digit c \<Longrightarrow> digit_char (digit_val c) = c"
  by (simp add: is_digit_def digit_char_def digit_val_def)

lemma digit_val_less: "is_digit c \<Longrightarrow> digit_val c < 10"
  by (auto simp: is_digit_def digit_val_def)

lemma digits_of_int_of_digits:
  "ds \<noteq> [] \<Longrightarrow> list_all is_digit ds \<Longrightarrow> length ds = 1 \<or> hd ds \<noteq> CHR ''0''
     \<Longrightarrow> digits_of (int_of_digits ds) = ds"
proof (induction ds rule: rev_induct)
  case Nil
  then show ?case by simp
next
  case (snoc c xs)
  have c: "is_digit c" using snoc.prems(2) by simp
  have dv: "digit_val c < 10" using c by (rule digit_val_less)
  show ?case
  proof (cases "xs = []")
    case True
    have "int_of_digits [c] = int (digit_val c)"
      by (simp add: int_of_digits_def)
    then show ?thesis
      using True dv c by (subst digits_of.simps) (simp add: digit_char_digit_val)
  next
    case False
    then have hd: "hd xs \<noteq> CHR ''0''" using snoc.prems(3) by simp
    have ih: "digits_of (int_of_digits xs) = xs"
      using False snoc.prems(2) hd by (intro snoc.IH) simp_all
    have "int_of_digits xs \<noteq> 0"
    proof
      assume "int_of_digits xs = 0"
      then have "digits_of 0 = xs" using ih by simp
      moreover have "digits_of 0 = [digit_char 0]" by (subst digits_of.simps) simp
      moreover have "digit_char 0 = CHR ''0''" by code_simp
      ultimately show False using hd by auto
    qed
    then have pos: "1 \<le> int_of_digits xs"
      using int_of_digits_nonneg [of xs] by linarith
    define v where "v = 10 * int_of_digits xs + int (digit_val c)"
    have v10: "\<not> v < 10" using pos by (simp add: v_def)
    have dv': "v div 10 = int_of_digits xs" "v mod 10 = int (digit_val c)"
      using dv by (simp_all add: v_def)
    have "digits_of v = digits_of (v div 10) @ [digit_char (nat (v mod 10))]"
      using v10 by (subst digits_of.simps) simp
    then show ?thesis
      using ih c by (simp add: dv' int_of_digits_snoc v_def [symmetric] digit_char_digit_val)
  qed
qed

lemma decimal_text_iff: "decimal_text n t \<longleftrightarrow> t = number_to_string n"
proof
  assume t: "t = number_to_string n"
  show "decimal_text n t"
  proof (cases "n < 0")
    case True
    then show ?thesis
      using digits_of_canonical [of "- n"]
      by (simp add: t decimal_text_def number_to_string_def int_of_digits_digits_of)
  next
    case False
    then show ?thesis
      using digits_of_canonical [of n]
      by (simp add: t decimal_text_def number_to_string_def int_of_digits_digits_of)
  qed
next
  assume d: "decimal_text n t"
  define ds where "ds = (if n < 0 then tl t else t)"
  have c: "ds \<noteq> []" "list_all is_digit ds" "length ds = 1 \<or> hd ds \<noteq> CHR ''0''"
    and v: "int_of_digits ds = \<bar>n\<bar>"
    using d by (simp_all add: decimal_text_def Let_def ds_def [symmetric])
  have ds: "ds = digits_of \<bar>n\<bar>"
    using digits_of_int_of_digits [OF c] v by simp
  show "t = number_to_string n"
  proof (cases "n < 0")
    case True
    then have "t \<noteq> []" "hd t = CHR ''-''"
      using d by (simp_all add: decimal_text_def Let_def)
    then have "t = CHR ''-'' # ds"
      using True by (cases t) (simp_all add: ds_def)
    then show ?thesis
      using True ds by (simp add: number_to_string_def)
  next
    case False
    then show ?thesis
      using ds by (simp add: number_to_string_def ds_def)
  qed
qed

subsection \<open>Value keys\<close>

lemma number_to_string_2008: "number_to_string n = ''2008'' \<longleftrightarrow> n = 2008"
proof
  assume eq: "number_to_string n = ''2008''"
  have neg: "\<not> n < 0"
    using eq by (auto simp: number_to_string_def)
  then have "digits_of n = ''2008''"
    using eq by (simp add: number_to_string_def)
  then have "int_of_digits (digits_of n) = int_of_digits ''2008''"
    by simp
  moreover have "int_of_digits ''2008'' = 2008"
    by code_simp
  ultimately show "n = 2008"
    using neg by (simp add: int_of_digits_digits_of)
next
  assume "n = 2008"
  moreover have "number_to_string 2008 = ''2008''"
    by code_simp
  ultimately show "number_to_string n = ''2008''"
    by simp
qed

lemma valueKey_2008: "valueKey v = ''2008'' \<longleftrightarrow> v = VNum 2008 \<or> v = VStr ''2008''"
  by (cases v) (simp_all add: number_to_string_2008)

lemma count_list_map_filter:
  "count_list (map g (filter Q xs)) y = length (filter (\<lambda>x. Q x \<and> g x = y) xs)"
  by (induction xs) auto

lemma occurrences_concat:
  "occurrences es = map (\<lambda>p. (slug p, valueKey (val p)))
                      (filter (\<lambda>p. val p \<noteq> VNull) (concat (map properties es)))"
  by (simp add: occurrences_def map_concat filter_concat comp_def)

lemma bucket_aggregateData_properties:
  "bucket (aggregateData es) s k =
     length (filter (\<lambda>p. val p \<noteq> VNull \<and> slug p = s \<and> valueKey (val p) = k)
               (concat (map properties es)))"
  by (simp add: bucket_aggregateData occurrences_concat count_list_map_filter)

text \<open>
  C1, as amended. A string value is its own key and every other value is keyed by its
  JSON text, which carries no type tag: \<^verbatim>\<open>true\<close> and \<^verbatim>\<open>false\<close> for the booleans, and
  for a number (a safe integer) its decimal text, which \<^verbatim>\<open>JSON.parse\<close> reads back as the
  number. So the key \<^verbatim>\<open>2008\<close> belongs to the number 2008 and to the string \<^verbatim>\<open>"2008"\<close>
  and to nothing else, and for every slug both values are counted in one bucket, in
  the file variant and in the relational variant.
\<close>

theorem valueKey_untagged:
  assumes "plain_data es"
  shows "valueKey (VStr str) = str
   \<and> valueKey (VBool True) = ''true''
   \<and> valueKey (VBool False) = ''false''
   \<and> JSON_parse (valueKey (VBool b)) = Some (JBool b)
   \<and> (safe_integer n \<longrightarrow>
         (\<forall>t. decimal_text n t \<longleftrightarrow> t = valueKey (VNum n))
         \<and> JSON_parse (valueKey (VNum n)) = Some (JNum (of_int n)))
   \<and> (plain_value v \<longrightarrow> (valueKey v = ''2008'' \<longleftrightarrow> v = VNum 2008 \<or> v = VStr ''2008''))
   \<and> aggregate_prop \<lparr>slug = s, ptype = t, val = VNum 2008\<rparr> agg
       = aggregate_prop \<lparr>slug = s, ptype = t', val = VStr ''2008''\<rparr> agg
   \<and> bucket (aggregateData es) s ''2008''
       = length (filter (\<lambda>p. slug p = s \<and> (val p = VNum 2008 \<or> val p = VStr ''2008''))
                  (concat (map properties es)))
   \<and> aggregate_column [(s, VNum 2008)] s agg = aggregate_column [(s, VStr ''2008'')] s agg"
proof -
  have key: "number_to_string 2008 = ''2008''"
    by code_simp
  have bool: "JSON_parse (valueKey (VBool b)) = Some (JBool b)"
  proof (cases b)
    case True
    have "JSON_parse ''true'' = Some (JBool True)" by code_simp
    then show ?thesis using True by simp
  next
    case False
    have "JSON_parse ''false'' = Some (JBool False)" by code_simp
    then show ?thesis using False by simp
  qed
  have num: "(\<forall>t. decimal_text n t \<longleftrightarrow> t = valueKey (VNum n))
         \<and> JSON_parse (valueKey (VNum n)) = Some (JNum (of_int n))" if "safe_integer n"
    using that by (simp add: decimal_text_iff JSON_parse_number_to_string)
  have "(val p \<noteq> VNull \<and> slug p = s \<and> valueKey (val p) = ''2008'')
        = (slug p = s \<and> (val p = VNum 2008 \<or> val p = VStr ''2008''))" for p :: property
    by (auto simp: valueKey_2008)
  then have count: "bucket (aggregateData es) s ''2008''
       = length (filter (\<lambda>p. slug p = s \<and> (val p = VNum 2008 \<or> val p = VStr ''2008''))
                  (concat (map properties es)))"
    by (simp add: bucket_aggregateData_properties)
  have column: "aggregate_column [(s, VNum 2008)] s agg = aggregate_column [(s, VStr ''2008'')] s agg"
    by (simp add: aggregate_column_def obj_get_def normalize_boolean_def key)
  have same: "aggregate_prop \<lparr>slug = s, ptype = t, val = VNum 2008\<rparr> agg
       = aggregate_prop \<lparr>slug = s, ptype = t', val = VStr ''2008''\<rparr> agg"
    by (simp add: aggregate_prop_def key)
  show ?thesis
    using bool num count column same by (simp add: valueKey_2008)
qed

theorem valueKey_untagged_witness:
  "plain_data [vehicle_2008, vehicle_text_2008]
   \<and> safe_integer 2008
   \<and> decimal_text 2008 ''2008''
   \<and> valueKey (VNum 2008) = ''2008''
   \<and> JSON_parse ''2008'' = Some (JNum 2008)
   \<and> plain_value (VStr ''2008'')
   \<and> valueKey (VStr ''2008'') = ''2008''
   \<and> bucket (aggregateData [vehicle_2008, vehicle_text_2008]) ''year'' ''2008'' = 2"
proof -
  have plain: "plain_data [vehicle_2008, vehicle_text_2008]"
    by code_simp
  have safe: "safe_integer 2008"
    by (simp add: safe_integer_def)
  have pv: "plain_value (VStr ''2008'')"
    by code_simp
  have n: "length (filter (\<lambda>p. slug p = ''year'' \<and> (val p = VNum 2008 \<or> val p = VStr ''2008''))
                  (concat (map properties [vehicle_2008, vehicle_text_2008]))) = 2"
    by (simp add: vehicle_2008_def vehicle_text_2008_def)
  note u = valueKey_untagged [OF plain, of "''2008''" True 2008 "VStr ''2008''" "''year''"]
  have num: "(\<forall>t. decimal_text 2008 t \<longleftrightarrow> t = valueKey (VNum 2008))
         \<and> JSON_parse (valueKey (VNum 2008)) = Some (JNum (of_int 2008))"
    using u safe by blast
  have pn: "plain_value (VNum 2008)"
    by code_simp
  have k1: "valueKey (VNum 2008) = ''2008''"
    using valueKey_untagged [OF plain, of "''2008''" True 2008 "VNum 2008" "''year''"] pn by blast
  have k2: "valueKey (VStr ''2008'') = ''2008''"
    using u by blast
  have d: "decimal_text 2008 ''2008''"
    using num k1 by simp
  have j: "JSON_parse ''2008'' = Some (JNum 2008)"
    using num k1 by simp
  have c: "bucket (aggregateData [vehicle_2008, vehicle_text_2008]) ''year'' ''2008'' = 2"
    using u n by simp
  show ?thesis
    by (intro conjI) (rule plain, rule safe, rule d, rule k1, rule j, rule pv, rule k2, rule c)
qed

text \<open>
  The claim as stated fails: a vehicle whose year is the number 2008 and one whose year
  is the string \<^verbatim>\<open>"2008"\<close> are counted together, in the single bucket \<^verbatim>\<open>2008\<close> of
  \<^verbatim>\<open>year\<close>.
\<close>

theorem valueKey_untagged_counterexample:
  "aggregateData [vehicle_2008, vehicle_text_2008]
     = [(''make'', [(''toyota'', 1), (''honda'', 1)]), (''year'', [(''2008'', 2)])]"
  by code_simp

subsection \<open>Formatting\<close>

lemma obj_set_fresh: "k \<notin> fst ` set ob \<Longrightarrow> obj_set k v ob = ob @ [(k, v)]"
  by (induction ob) auto

lemma fold_format:
  assumes "distinct ks" "set ks \<inter> fst ` set r = {}" "\<forall>s \<in> set ks. obj_get agg s \<noteq> None"
  shows "fold (\<lambda>s r. case obj_get agg s of None \<Rightarrow> r | Some c \<Rightarrow> obj_set s (F c) r) ks r
           = r @ map (\<lambda>s. (s, F (the (obj_get agg s)))) ks"
  using assms
proof (induction ks arbitrary: r)
  case Nil
  then show ?case by simp
next
  case (Cons k ks)
  from Cons.prems obtain c where c: "obj_get agg k = Some c" by auto
  have fresh: "k \<notin> fst ` set r" using Cons.prems by auto
  have "set ks \<inter> fst ` set (r @ [(k, F c)]) = {}"
    using Cons.prems by auto
  then have "fold (\<lambda>s r. case obj_get agg s of None \<Rightarrow> r | Some c \<Rightarrow> obj_set s (F c) r) ks (r @ [(k, F c)])
           = (r @ [(k, F c)]) @ map (\<lambda>s. (s, F (the (obj_get agg s)))) ks"
    using Cons.prems by (intro Cons.IH) auto
  then show ?case
    using c fresh by (simp add: obj_set_fresh)
qed

lemma obj_keys_lookup: "\<forall>s \<in> set (obj_keys ob). obj_get ob s \<noteq> None"
  by (simp add: set_obj_keys obj_get_None_iff)


lemma formatAggregation_db_eq:
  assumes "distinct (map fst agg)"
  shows "formatAggregation_db agg =
           map (\<lambda>s. (s, sort_desc (obj_entries (the (obj_get agg s))))) (obj_keys agg)"
proof -
  have "format_slug_db agg =
          (\<lambda>s r. case obj_get agg s of
                    None \<Rightarrow> r
                  | Some c \<Rightarrow> obj_set s (sort_desc (obj_entries c)) r)"
    by (intro ext) (simp add: format_slug_db_def split: option.splits)
  then show ?thesis
    using fold_format [of "obj_keys agg" "[]" agg "\<lambda>c. sort_desc (obj_entries c)"] distinct_obj_keys [OF assms]
      obj_keys_lookup [of agg]
    by (simp add: formatAggregation_db_def)
qed






lemma distinct_keys_sort_desc: "distinct (map fst (sort_desc xs)) = distinct (map fst xs)"
  by (rule mset_eq_imp_distinct_iff) (simp add: sort_desc_def)

lemma distinct_keys_obj_entries: "distinct (map fst ob) \<Longrightarrow> distinct (map fst (obj_entries ob))"
  by (simp add: map_fst_obj_entries distinct_obj_keys)

subsection \<open>The formatted result of the file variant\<close>









subsection \<open>Aggregation of flat rows\<close>

lemma fold_aggregate_column:
  assumes "\<forall>k \<in> set ks. obj_get row k \<noteq> None"
  shows "fold (aggregate_column row) ks agg =
           fold (\<lambda>p. increment (fst p) (snd p))
             (map (\<lambda>p. (fst p, valueKey (normalize_boolean (fst p) (snd p))))
                (filter (\<lambda>p. snd p \<noteq> VNull) (map (\<lambda>k. (k, the (obj_get row k))) ks))) agg"
  using assms
proof (induction ks arbitrary: agg)
  case Nil
  then show ?case by simp
next
  case (Cons k ks)
  then obtain v where "obj_get row k = Some v" by auto
  then show ?case
    using Cons by (simp add: aggregate_column_def)
qed

lemma aggregateData_db_occurrences:
  "aggregateData_db rows = fold (\<lambda>p. increment (fst p) (snd p)) (concat (map row_occurrences rows)) []"
proof -
  have "fold (\<lambda>row. fold (aggregate_column row) (obj_keys row)) rows agg
          = fold (\<lambda>p. increment (fst p) (snd p)) (concat (map row_occurrences rows)) agg" for agg
  proof (induction rows arbitrary: agg)
    case Nil
    then show ?case by simp
  next
    case (Cons row rows)
    have "fold (aggregate_column row) (obj_keys row) agg
            = fold (\<lambda>p. increment (fst p) (snd p)) (row_occurrences row) agg"
      using fold_aggregate_column [OF obj_keys_lookup, of row agg]
      by (simp add: row_occurrences_def obj_entries_eq)
    then show ?case
      using Cons by simp
  qed
  then show ?thesis by (simp add: aggregateData_db_def)
qed

lemma wf_agg_aggregateData_db: "wf_agg (aggregateData_db rows)"
  by (simp add: aggregateData_db_occurrences wf_agg_fold_increment wf_agg_Nil)
















subsection \<open>Type inference\<close>














subsection \<open>Further facts\<close>

text \<open>
  An entry the parser reports as invalid leaves the map as it is, and parsing goes on:
  the filter map is the map built from the entries it accepts, in their order.
\<close>

lemma parsePropertyFilters_skips_invalid:
  "parsePropertyFilters (Some fs)
     = fold (\<lambda>e m. obj_set (fst e) (snd e) m) (List.map_filter entry_of fs) []"
proof -
  have "fold parse_filter fs m
          = fold (\<lambda>e m. obj_set (fst e) (snd e) m) (List.map_filter entry_of fs) m" for m
  proof (induction fs arbitrary: m)
    case Nil
    then show ?case by (simp add: List.map_filter_simps)
  next
    case (Cons f fs)
    then show ?case
      by (cases "entry_of f") (auto simp: parse_filter_entry List.map_filter_simps)
  qed
  then show ?thesis by (simp add: parsePropertyFilters_def)
qed

text \<open>
  The relational variant shows the value keys themselves, so there no value appears
  twice in the list of one column.
\<close>

lemma formatAggregation_db_distinct:
  assumes "(key, lst) \<in> set (formatAggregation_db (aggregateData_db rows))"
  shows "distinct (map fst lst)"
proof -
  let ?agg = "aggregateData_db rows"
  have wf: "wf_agg ?agg" by (rule wf_agg_aggregateData_db)
  then have d: "distinct (map fst ?agg)" by (simp add: wf_agg_def)
  from assms have key: "key \<in> set (obj_keys ?agg)"
    and lst: "lst = sort_desc (obj_entries (the (obj_get ?agg key)))"
    by (auto simp: formatAggregation_db_eq [OF d])
  from key obtain counts where c: "obj_get ?agg key = Some counts"
    using obj_keys_lookup [of ?agg] by auto
  then have "wf_counts counts" using wf by (rule wf_agg_lookup [rotated])
  then have "distinct (map fst counts)" by (simp add: wf_counts_def)
  then show ?thesis
    by (simp add: lst c distinct_keys_sort_desc distinct_keys_obj_entries)
qed

end
